theory Spec2Isabelle
  imports
    Complex_Main
    "HOL-Library.Word"
    "HOL-Library.Log_Nat"
    "HOL-Library.Char_ord"
    "HOL-Library.List_Lexorder"
begin

section \<open>Go library functions used by the processor\<close>

subsection \<open>float64 arithmetic\<close>

text \<open>
  The processor computes pixel values in \<open>float64\<close> and converts the result to
  \<open>uint8\<close>. A finite \<open>float64\<close> is a rational number, kept here as a \<open>real\<close>, and an
  arithmetic operation returns the exact result rounded to the nearest representable
  value, ties to the even significand: \<open>fl64\<close> is that rounding for 53-bit
  significands. The values that occur here are zero or lie between \<open>1 / 256\<close> and
  \<open>256\<close>, so the exponent limits of the format (overflow, subnormal numbers) are not
  modelled. Each operation is rounded on its own; Go also lets an implementation fuse
  \<open>x * y + z\<close> into one rounding, which is not modelled. The quotient \<open>x / 0\<close> is 0 in
  HOL, where \<open>float64\<close> division gives an infinity or a NaN: the divisor of the second
  pass is shown to be non-zero below.
\<close>

definition pow2 :: "int \<Rightarrow> real" where
  "pow2 e = (if 0 \<le> e then 2 ^ nat e else 1 / 2 ^ nat (- e))"

text \<open>Round to the nearest integer, a tie to the even neighbour.\<close>

definition rne :: "real \<Rightarrow> int" where
  "rne q =
     (let f = \<lfloor>q\<rfloor>; r = q - of_int f
      in if r < 1 / 2 then f
         else if 1 / 2 < r then f + 1
         else if even f then f else f + 1)"

text \<open>
  The binary exponent \<open>e\<close> of a positive number: \<open>2 ^ e \<le> q < 2 ^ (e + 1)\<close>,
  read off the bit length of the integer part of \<open>q\<close>, or of \<open>1 / q\<close> below one.
\<close>

definition expo :: "real \<Rightarrow> int" where
  "expo q = (if 1 \<le> q then bitlen \<lfloor>q\<rfloor> - 1 else - bitlen (\<lceil>1 / q\<rceil> - 1))"

definition fl64 :: "real \<Rightarrow> real" where
  "fl64 x =
     (if x = 0 then 0
      else let ulp = pow2 (expo \<bar>x\<bar> - 52)
           in of_int (rne (x / ulp)) * ulp)"

definition fmul :: "real \<Rightarrow> real \<Rightarrow> real" where
  "fmul x y = fl64 (x * y)"

definition fadd :: "real \<Rightarrow> real \<Rightarrow> real" where
  "fadd x y = fl64 (x + y)"

definition fdiv :: "real \<Rightarrow> real \<Rightarrow> real" where
  "fdiv x y = fl64 (x / y)"

text \<open>
  \<open>float64(v)\<close> of an 8-bit or 32-bit unsigned integer is exact. \<open>uint8(f)\<close> discards
  the fraction. Go leaves the conversion of a value outside \<open>0 .. 255\<close>
  implementation-specific; the model keeps the low eight bits there.
\<close>

definition float64 :: "'a::len word \<Rightarrow> real" where
  "float64 v = of_nat (unat v)"

definition uint8 :: "real \<Rightarrow> 8 word" where
  "uint8 f = word_of_int (if 0 \<le> f then \<lfloor>f\<rfloor> else - \<lfloor>- f\<rfloor>)"

subsection \<open>Package image\<close>

text \<open>
  A rectangle is kept by its minimum corner and its extent, so it is well-formed by
  construction: \<open>image.NewGray\<close> panics on a rectangle with a negative extent, and
  \<open>image.Decode\<close> never produces one. \<open>Max.X\<close> is \<open>MinX + Dx\<close>.
\<close>

record rectangle =
  MinX :: int
  MinY :: int
  Dx :: nat
  Dy :: nat

definition MaxX :: "rectangle \<Rightarrow> int" where
  "MaxX r = MinX r + int (Dx r)"

definition MaxY :: "rectangle \<Rightarrow> int" where
  "MaxY r = MinY r + int (Dy r)"

text \<open>\<open>Point{x, y}.In(r)\<close>.\<close>

definition PointIn :: "int \<times> int \<Rightarrow> rectangle \<Rightarrow> bool" where
  "PointIn p r = (MinX r \<le> fst p \<and> fst p < MaxX r \<and> MinY r \<le> snd p \<and> snd p < MaxY r)"

text \<open>
  \<open>color.Color.RGBA()\<close> returns four \<open>uint32\<close> samples, each at most \<open>0xffff\<close> by
  the contract of the interface. An \<open>image.Image\<close> is its bounds and its pixel accessor.
\<close>

type_synonym rgba = "32 word \<times> 32 word \<times> 32 word \<times> 32 word"

record image =
  Bounds :: rectangle
  At :: "int \<Rightarrow> int \<Rightarrow> rgba"

text \<open>
  \<open>image.Gray\<close>: the pixel store is indexed by coordinates here (the layout of the
  \<open>Pix\<close> slice is not modelled). \<open>NewGray\<close> clears every pixel, \<open>Set\<close> writes inside
  the rectangle only, \<open>GrayAt\<close> reads zero outside.
\<close>

record gray =
  Rect :: rectangle
  Pix :: "int \<times> int \<Rightarrow> 8 word"

definition NewGray :: "rectangle \<Rightarrow> gray" where
  "NewGray r = \<lparr>Rect = r, Pix = (\<lambda>_. 0)\<rparr>"

definition GraySet :: "gray \<Rightarrow> int \<Rightarrow> int \<Rightarrow> 8 word \<Rightarrow> gray" where
  "GraySet g x y v = (if PointIn (x, y) (Rect g) then g\<lparr>Pix := (Pix g)((x, y) := v)\<rparr> else g)"

definition GrayAt :: "gray \<Rightarrow> int \<Rightarrow> int \<Rightarrow> 8 word" where
  "GrayAt g x y = (if PointIn (x, y) (Rect g) then Pix g (x, y) else 0)"

section \<open>preprocessImage\<close>

text \<open>
  The coordinates visited by
  \<open>for y := Min.Y; y < Max.Y; y++ { for x := Min.X; x < Max.X; x++ { ... } }\<close>,
  in that order.
\<close>

definition pixelCoords :: "rectangle \<Rightarrow> (int \<times> int) list" where
  "pixelCoords b = concat (map (\<lambda>y. map (\<lambda>x. (x, y)) [MinX b..MaxX b - 1]) [MinY b..MaxY b - 1])"

text \<open>
  \<open>uint8(0.299*float64(r>>8) + 0.587*float64(g>>8) + 0.114*float64(b>>8))\<close>; the
  constants are the \<open>float64\<close> values nearest to the decimals.
\<close>

definition grayVal :: "rgba \<Rightarrow> 8 word" where
  "grayVal c =
     (case c of (r, g, b, a) \<Rightarrow>
        uint8 (fadd (fadd (fmul (fl64 (299 / 1000)) (float64 (drop_bit 8 r)))
                          (fmul (fl64 (587 / 1000)) (float64 (drop_bit 8 g))))
                    (fmul (fl64 (114 / 1000)) (float64 (drop_bit 8 b)))))"

text \<open>The body of the first pass: the running minimum and maximum and the gray image.\<close>

definition firstStep :: "image \<Rightarrow> int \<times> int \<Rightarrow> 8 word \<times> 8 word \<times> gray \<Rightarrow> 8 word \<times> 8 word \<times> gray" where
  "firstStep img p s =
     (case s of (mn, mx, g) \<Rightarrow>
        let v = grayVal (At img (fst p) (snd p));
            mn' = (if v < mn then v else mn);
            mx' = (if v > mx then v else mx)
        in (mn', mx', GraySet g (fst p) (snd p) v))"

definition firstPass :: "image \<Rightarrow> 8 word \<times> 8 word \<times> gray" where
  "firstPass img = fold (firstStep img) (pixelCoords (Bounds img)) (255, 0, NewGray (Bounds img))"

text \<open>The three results of the first pass: \<open>min\<close>, \<open>max\<close> and \<open>gray\<close>.\<close>

definition firstPassMin :: "image \<Rightarrow> 8 word" where
  "firstPassMin img = fst (firstPass img)"

definition firstPassMax :: "image \<Rightarrow> 8 word" where
  "firstPassMax img = fst (snd (firstPass img))"

definition firstPassGray :: "image \<Rightarrow> gray" where
  "firstPassGray img = snd (snd (firstPass img))"

text \<open>
  The contrast decision after the first pass: \<open>None\<close> is the early return of the gray
  image, \<open>Some (min, max)\<close> the range the second pass stretches with. \<open>max - min\<close> is
  a \<open>uint8\<close> subtraction.
\<close>

definition contrastDecision :: "rectangle \<Rightarrow> 8 word \<Rightarrow> 8 word \<Rightarrow> (8 word \<times> 8 word) option" where
  "contrastDecision bounds mn mx =
     (if Dx bounds < 100 \<or> Dy bounds < 100 then Some (0, 255)
      else if mx - mn < 30 then None
      else Some (mn, mx))"

text \<open>\<open>uint8((float64(original-min) / float64(max-min)) * 255)\<close>, before thresholding.\<close>

definition normalized :: "8 word \<Rightarrow> 8 word \<Rightarrow> 8 word \<Rightarrow> 8 word" where
  "normalized original mn mx = uint8 (fmul (fdiv (float64 (original - mn)) (float64 (mx - mn))) 255)"

definition threshold :: "8 word \<Rightarrow> 8 word" where
  "threshold n = (if n > 128 then 255 else 0)"

definition secondStep :: "gray \<Rightarrow> 8 word \<Rightarrow> 8 word \<Rightarrow> int \<times> int \<Rightarrow> gray \<Rightarrow> gray" where
  "secondStep g mn mx p enhanced =
     (let original = GrayAt g (fst p) (snd p)
      in GraySet enhanced (fst p) (snd p) (threshold (normalized original mn mx)))"

definition secondPass :: "rectangle \<Rightarrow> gray \<Rightarrow> 8 word \<Rightarrow> 8 word \<Rightarrow> gray" where
  "secondPass bounds g mn mx = fold (secondStep g mn mx) (pixelCoords bounds) (NewGray bounds)"

definition preprocessImage :: "image \<Rightarrow> gray" where
  "preprocessImage img =
     (let bounds = Bounds img
      in (case firstPass img of (mn, mx, g) \<Rightarrow>
            (case contrastDecision bounds mn mx of
               None \<Rightarrow> g
             | Some (mn', mx') \<Rightarrow> secondPass bounds g mn' mx')))"


section \<open>More Go library functions\<close>

text \<open>
  A Go \<open>string\<close> and a \<open>[]byte\<close> are byte sequences: \<open>string\<close> here. An \<open>error\<close>
  is kept by its message.
\<close>

type_synonym error = string

subsection \<open>strconv.Atoi\<close>

text \<open>
  An optional sign, then one or more decimal digits and nothing else; the value must fit
  the 64-bit \<open>int\<close>. \<open>None\<close> is a non-nil \<open>err\<close> (syntax or range).
\<close>

definition isDigit :: "char \<Rightarrow> bool" where
  "isDigit ch = (48 \<le> (of_char ch :: nat) \<and> (of_char ch :: nat) \<le> 57)"

fun parseDigits :: "string \<Rightarrow> int \<Rightarrow> int option" where
  "parseDigits [] n = Some n"
| "parseDigits (ch # s) n =
     (if isDigit ch then parseDigits s (n * 10 + (int (of_char ch) - 48)) else None)"

definition Atoi :: "string \<Rightarrow> int option" where
  "Atoi s0 =
     (case s0 of
        [] \<Rightarrow> None
      | c # rest \<Rightarrow>
          (let s = (if c = CHR ''-'' \<or> c = CHR ''+'' then rest else s0)
           in if s = [] then None
              else (case parseDigits s 0 of
                      None \<Rightarrow> None
                    | Some n \<Rightarrow>
                        (let v = (if c = CHR ''-'' then - n else n)
                         in if v < - (2 ^ 63) \<or> 2 ^ 63 - 1 < v then None else Some v))))"

subsection \<open>strings.Split, filepath.Ext, filepath.Join, sort.Strings\<close>

text \<open>\<open>strings.Split(s, sep)\<close> for a one-byte separator: one more part than separators.\<close>

fun Split :: "string \<Rightarrow> char \<Rightarrow> string list" where
  "Split [] sep = [Nil]"
| "Split (c # s) sep =
     (if c = sep then [] # Split s sep
      else (c # hd (Split s sep)) # tl (Split s sep))"

text \<open>
  \<open>filepath.Ext\<close> scans from the end up to the last path separator and returns the
  suffix from the last dot on, or the empty string. \<open>ExtScan\<close> walks the reversed
  path and collects the suffix.
\<close>

fun ExtScan :: "string \<Rightarrow> string \<Rightarrow> string" where
  "ExtScan [] suffix = []"
| "ExtScan (c # r) suffix =
     (if c = CHR ''/'' then []
      else if c = CHR ''.'' then c # suffix
      else ExtScan r (c # suffix))"

definition Ext :: "string \<Rightarrow> string" where
  "Ext path = ExtScan (rev path) []"

text \<open>\<open>filepath.Join\<close> of a directory and a file name (path cleaning is not modelled).\<close>

definition Join :: "string \<Rightarrow> string \<Rightarrow> string" where
  "Join dir name = dir @ ''/'' @ name"

text \<open>\<open>sort.Strings\<close>: ascending in the bytewise lexicographic order of Go strings.\<close>

definition sortStrings :: "string list \<Rightarrow> string list" where
  "sortStrings xs = sort xs"

section \<open>extractBarcodeFromImage\<close>

text \<open>
  The six readers of the cascade, in the order of the \<open>readers\<close> slice. What a reader
  finds in a bitmap is the library's business: \<open>decode r bmp\<close> is the result of
  \<open>r.reader.Decode(bmp, hints)\<close>, an error or the decoded text. The binary bitmap wraps
  the preprocessed image; its construction can fail.
\<close>

datatype reader = UPC_EAN | Code128 | Code39 | Code93 | ITF | CodaBar

definition readerName :: "reader \<Rightarrow> string" where
  "readerName r =
     (case r of UPC_EAN \<Rightarrow> ''UPC/EAN'' | Code128 \<Rightarrow> ''Code128'' | Code39 \<Rightarrow> ''Code39''
      | Code93 \<Rightarrow> ''Code93'' | ITF \<Rightarrow> ''ITF'' | CodaBar \<Rightarrow> ''CodaBar'')"

definition readers :: "reader list" where
  "readers = [UPC_EAN, Code128, Code39, Code93, ITF, CodaBar]"

type_synonym bitmap = gray

text \<open>
  The loop over the readers. \<open>tried\<close> collects the readers whose \<open>Decode\<close> has been
  called, in call order (the code logs each of them); \<open>lastErr\<close> is \<open>None\<close> for
  \<open>nil\<close>, printed by \<open>%v\<close> as \<open><nil>\<close>.
\<close>

fun tryReaders ::
  "(reader \<Rightarrow> bitmap \<Rightarrow> error + string) \<Rightarrow> bitmap \<Rightarrow> reader list \<Rightarrow> error option \<Rightarrow> reader list
     \<Rightarrow> (error + string) \<times> reader list" where
  "tryReaders decode bmp [] lastErr tried =
     (Inl (''no barcode found with any reader, last error: ''
            @ (case lastErr of None \<Rightarrow> ''<nil>'' | Some e \<Rightarrow> e)), tried)"
| "tryReaders decode bmp (r # rs) lastErr tried =
     (case decode r bmp of
        Inr text \<Rightarrow> (Inr text, tried @ [r])
      | Inl err \<Rightarrow> tryReaders decode bmp rs (Some err) (tried @ [r]))"

section \<open>HandleRequest\<close>

text \<open>
  Everything outside the process is a field of \<open>world\<close>: what the call made at that
  point of the run returns. Logging, the debug copies under \<open>TEST_DEBUG\<close> and the
  removal of the temporary directory have no part in the result and are left out.
\<close>

record DirEntry =
  Name :: string
  IsDir :: bool

record BarcodeData =
  S3Key :: string
  BarcodeArray :: "string list"

record ResponseBody =
  Bucket :: string
  Key :: string
  Barcodes :: "string list"

text \<open>A response body is a fixed text or the JSON encoding of a \<open>ResponseBody\<close>.\<close>

datatype body = Text string | Json ResponseBody

record Response =
  StatusCode :: int
  Body :: body

record world =
  Getenv :: "string \<Rightarrow> string"
  ReadFile :: "string \<Rightarrow> error + string"
  LoadDefaultConfig :: "error option"
  GetObject :: "string \<Rightarrow> string \<Rightarrow> error + (error + string)"
  MkdirTemp :: "error + string"
  WriteFile :: "string \<Rightarrow> string \<Rightarrow> error option"
  MkdirAll :: "string \<Rightarrow> error option"
  ExtractImagesFile :: "string \<Rightarrow> string \<Rightarrow> error option"
  ReadDir :: "string \<Rightarrow> error + DirEntry list"
  OpenFile :: "string \<Rightarrow> error option"
  ImageDecode :: "string \<Rightarrow> error + image"
  NewBinaryBitmapFromImage :: "gray \<Rightarrow> error option"
  Decode :: "reader \<Rightarrow> bitmap \<Rightarrow> error + string"
  NewRequest :: "string \<Rightarrow> error option"
  ClientDo :: "string \<Rightarrow> BarcodeData \<Rightarrow> error + int"

text \<open>
  What a run does to its collaborators, in order: the extraction call, each call of
  \<open>extractBarcodeFromImage\<close> with the readers it tried, each HTTP POST sent.
\<close>

datatype event =
  Extract string string
| Scan string "reader list"
| Post string BarcodeData

text \<open>A call returns a response and an error, or panics.\<close>

datatype result = Return Response "error option" | Panic string

definition extractBarcodeFromImage :: "world \<Rightarrow> image \<Rightarrow> (error + string) \<times> reader list" where
  "extractBarcodeFromImage w img =
     (let processedImg = preprocessImage img
      in (case NewBinaryBitmapFromImage w processedImg of
            Some err \<Rightarrow> (Inl (''error creating binary bitmap: '' @ err), [])
          | None \<Rightarrow> tryReaders (Decode w) processedImg readers None []))"

text \<open>The decimal digits that \<open>%d\<close> prints for an integer.\<close>

fun showNat :: "nat \<Rightarrow> string" where
  "showNat n =
     (if n < 10 then [char_of (48 + n)]
      else showNat (n div 10) @ [char_of (48 + n mod 10)])"

declare showNat.simps [simp del]

definition showInt :: "int \<Rightarrow> string" where
  "showInt i = (if i < 0 then CHR ''-'' # showNat (nat (- i)) else showNat (nat i))"

text \<open>\<open>callRubyEndpoint\<close>: the error it returns and the POST it sent, if any.\<close>

definition callRubyEndpoint :: "world \<Rightarrow> BarcodeData \<Rightarrow> error option \<times> event list" where
  "callRubyEndpoint w data =
     (let apiEndpoint = Getenv w ''API_ENDPOINT''
      in if apiEndpoint = [] then (Some ''API_ENDPOINT environment variable not set'', [])
         else (case NewRequest w apiEndpoint of
                 Some err \<Rightarrow> (Some (''error creating request: '' @ err), [])
               | None \<Rightarrow>
                   (case ClientDo w apiEndpoint data of
                      Inl err \<Rightarrow> (Some (''error making request: '' @ err), [Post apiEndpoint data])
                    | Inr status \<Rightarrow>
                        if status \<noteq> 200
                        then (Some (''API returned non-200 status: '' @ showInt status),
                              [Post apiEndpoint data])
                        else (None, [Post apiEndpoint data]))))"

text \<open>
  The first computation of the page limit, at the top of \<open>HandleRequest\<close>: a value that
  parses and is positive, otherwise 1.
\<close>

definition pageLimitDefault :: "world \<Rightarrow> int" where
  "pageLimitDefault w =
     (let limitStr = Getenv w ''PDF_PAGE_LIMIT''
      in if limitStr \<noteq> []
         then (case Atoi limitStr of
                 Some limit \<Rightarrow> if 0 < limit then limit else 1
               | None \<Rightarrow> 1)
         else 1)"

text \<open>
  The second computation, before the extraction: \<open>pageLimit, err = strconv.Atoi(pageRange)\<close>
  assigns the same variable again, and only a parse error resets it to 1. This is the
  value the page selection compares with.
\<close>

definition pageLimitUsed :: "world \<Rightarrow> int" where
  "pageLimitUsed w =
     (let pageRange = Getenv w ''PDF_PAGE_LIMIT'';
          pageRange = (if pageRange = [] then ''1'' else pageRange)
      in (case Atoi pageRange of
            None \<Rightarrow> 1
          | Some n \<Rightarrow> n))"

text \<open>The selection loop over the directory entries, then \<open>sort.Strings\<close>.\<close>

definition keepFile :: "int \<Rightarrow> DirEntry \<Rightarrow> bool" where
  "keepFile pageLimit file =
     (\<not> IsDir file \<and> Ext (Name file) \<noteq> ''.pdf'' \<and>
      (let parts = Split (Name file) (CHR ''_'')
       in 2 \<le> length parts \<and>
          (case Atoi (parts ! 1) of
             Some pageNum \<Rightarrow> pageNum \<le> pageLimit
           | None \<Rightarrow> False)))"

definition selectFiles :: "DirEntry list \<Rightarrow> int \<Rightarrow> string list" where
  "selectFiles files pageLimit =
     sortStrings
       (fold (\<lambda>file sortedFiles. if keepFile pageLimit file then sortedFiles @ [Name file] else sortedFiles)
          files [])"

text \<open>The body of the scan loop: the barcodes found so far and the events so far.\<close>

definition scanFile :: "world \<Rightarrow> string \<Rightarrow> string \<Rightarrow> string \<Rightarrow> string list \<times> event list \<Rightarrow> string list \<times> event list" where
  "scanFile w tmpDir key fileName st =
     (case st of (foundBarcodes, evs) \<Rightarrow>
        (let imgPath = Join tmpDir fileName
         in (case OpenFile w imgPath of
               Some err \<Rightarrow> (foundBarcodes, evs)
             | None \<Rightarrow>
                 (case ImageDecode w imgPath of
                    Inl err \<Rightarrow> (foundBarcodes, evs)
                  | Inr img \<Rightarrow>
                      (case extractBarcodeFromImage w img of
                         (Inl err, tried) \<Rightarrow> (foundBarcodes, evs @ [Scan fileName tried])
                       | (Inr barcode, tried) \<Rightarrow>
                           if barcode \<noteq> []
                           then (foundBarcodes @ [barcode],
                                 evs @ [Scan fileName tried]
                                   @ snd (callRubyEndpoint w \<lparr>S3Key = key, BarcodeArray = [barcode]\<rparr>))
                           else (foundBarcodes, evs @ [Scan fileName tried]))))))"

text \<open>
  Where the document comes from: the file named by \<open>TEST_PDF_PATH\<close>, or the object of
  the first event record (\<open>s3Event.Records[0]\<close> panics on an empty list).
  \<open>getS3Client\<close> returns a nil client in test mode only.
\<close>

definition getS3Client :: "world \<Rightarrow> error + bool" where
  "getS3Client w =
     (if Getenv w ''TEST_PDF_PATH'' \<noteq> [] then Inr False
      else (case LoadDefaultConfig w of
              Some err \<Rightarrow> Inl err
            | None \<Rightarrow> Inr True))"

definition respond :: "int \<Rightarrow> string \<Rightarrow> error \<Rightarrow> result" where
  "respond code msg err = Return \<lparr>StatusCode = code, Body = Text msg\<rparr> (Some err)"

definition fetchPDF :: "world \<Rightarrow> (string \<times> string) list \<Rightarrow> result + string \<times> string \<times> string" where
  "fetchPDF w records =
     (let testPath = Getenv w ''TEST_PDF_PATH''
      in if testPath \<noteq> []
         then (case ReadFile w testPath of
                 Inl err \<Rightarrow> Inl (respond 500 ''Error reading test PDF'' err)
               | Inr pdfBytes \<Rightarrow> Inr (pdfBytes, ''test-bucket'', testPath))
         else (case records of
                 [] \<Rightarrow> Inl (Panic ''runtime error: index out of range [0] with length 0'')
               | record # _ \<Rightarrow>
                   (let bucket = fst record; key = snd record
                    in (case getS3Client w of
                          Inl err \<Rightarrow> Inl (respond 500 ''Error initializing S3 client'' err)
                        | Inr False \<Rightarrow> Inl (Panic ''runtime error: invalid memory address or nil pointer dereference'')
                        | Inr True \<Rightarrow>
                            (case GetObject w bucket key of
                               Inl err \<Rightarrow> Inl (respond 500 ''Error getting object from S3'' err)
                             | Inr (Inl err) \<Rightarrow> Inl (respond 500 ''Error reading PDF'' err)
                             | Inr (Inr pdfBytes) \<Rightarrow> Inr (pdfBytes, bucket, key))))))"

text \<open>
  From the listing of the temporary directory to the response: select, scan, answer.
  Both branches on \<open>len(foundBarcodes) > 0\<close> only build the response.
\<close>

definition scanAndRespond ::
  "world \<Rightarrow> string \<Rightarrow> string \<Rightarrow> string \<Rightarrow> int \<Rightarrow> DirEntry list \<Rightarrow> event list \<Rightarrow> result \<times> event list" where
  "scanAndRespond w tmpDir bucket key pageLimit files evs0 =
     (let processFiles = selectFiles files pageLimit
      in (case fold (scanFile w tmpDir key) processFiles ([], evs0) of
            (foundBarcodes, evs) \<Rightarrow>
              if 0 < length foundBarcodes
              then (Return \<lparr>StatusCode = 200,
                             Body = Json \<lparr>Bucket = bucket, Key = key, Barcodes = foundBarcodes\<rparr>\<rparr> None,
                    evs)
              else (Return \<lparr>StatusCode = 200,
                             Body = Json \<lparr>Bucket = bucket, Key = key, Barcodes = []\<rparr>\<rparr> None,
                    evs)))"

text \<open>From the temporary directory to the listing of the extracted files.\<close>

definition extractAndScan :: "world \<Rightarrow> string \<Rightarrow> string \<Rightarrow> string \<Rightarrow> result \<times> event list" where
  "extractAndScan w pdfBytes bucket key =
     (case MkdirTemp w of
        Inl err \<Rightarrow> (respond 500 ''Error creating temp directory'' err, [])
      | Inr tmpDir \<Rightarrow>
          (let tmpPDF = Join tmpDir ''input.pdf''
           in (case WriteFile w tmpPDF pdfBytes of
                 Some err \<Rightarrow> (respond 500 ''Error writing temporary PDF'' err, [])
               | None \<Rightarrow>
                   (case MkdirAll w (Join tmpDir ''pages'') of
                      Some err \<Rightarrow> (respond 500 ''Error creating pages directory'' err, [])
                    | None \<Rightarrow>
                        (let pageLimit = pageLimitUsed w
                         in (case ExtractImagesFile w tmpPDF tmpDir of
                               Some err \<Rightarrow>
                                 (respond 500 ''Error extracting images from PDF'' err, [Extract tmpPDF tmpDir])
                             | None \<Rightarrow>
                                 (case ReadDir w tmpDir of
                                    Inl err \<Rightarrow>
                                      (respond 500 ''Error reading extracted images'' err, [Extract tmpPDF tmpDir])
                                  | Inr files \<Rightarrow>
                                      scanAndRespond w tmpDir bucket key pageLimit files
                                        [Extract tmpPDF tmpDir])))))))"

text \<open>
  \<open>HandleRequest\<close>: the page limit is computed first (and computed again in
  \<open>extractAndScan\<close>), the document is fetched and validated, then extracted and scanned.
\<close>

definition HandleRequest :: "world \<Rightarrow> (string \<times> string) list \<Rightarrow> result \<times> event list" where
  "HandleRequest w records =
     (let pageLimit = pageLimitDefault w
      in (case fetchPDF w records of
            Inl r \<Rightarrow> (r, [])
          | Inr (pdfBytes, bucket, key) \<Rightarrow>
              if length pdfBytes = 0
              then (respond 400 ''Empty PDF file'' ''empty PDF file'', [])
              else if length pdfBytes < 4 \<or> take 4 pdfBytes \<noteq> ''%PDF''
              then (respond 400 ''Invalid PDF format'' ''invalid PDF format'', [])
              else extractAndScan w pdfBytes bucket key))"

section \<open>The specification's formula and example inputs\<close>

text \<open>
  The specification's stretching formula, in its own words:
  \<open>normalized = round((original - min) / (max - min) * 255)\<close>.
\<close>

definition spec_normalized :: "8 word \<Rightarrow> 8 word \<Rightarrow> 8 word \<Rightarrow> int" where
  "spec_normalized original mn mx =
     round ((real (unat original) - real (unat mn)) / (real (unat mx) - real (unat mn)) * 255)"

text \<open>Images of one colour: opaque black, one pixel and 100 by 100.\<close>

definition black :: rgba where
  "black = (0, 0, 0, 0xffff)"

definition blackImage :: "nat \<Rightarrow> nat \<Rightarrow> image" where
  "blackImage width height =
     \<lparr>Bounds = \<lparr>MinX = 0, MinY = 0, Dx = width, Dy = height\<rparr>, At = (\<lambda>x y. black)\<rparr>"

text \<open>An opaque colour of luminance 200, and the images of that one colour.\<close>

definition bright :: rgba where
  "bright = (0xffff, 0xd3d3, 0, 0xffff)"

definition brightImage :: "nat \<Rightarrow> nat \<Rightarrow> image" where
  "brightImage width height =
     \<lparr>Bounds = \<lparr>MinX = 0, MinY = 0, Dx = width, Dy = height\<rparr>, At = (\<lambda>x y. bright)\<rparr>"

text \<open>
  A 100 by 100 image with one black pixel, one pixel of luminance 200 and all others of
  luminance 101.
\<close>

definition threeLevelImage :: image where
  "threeLevelImage =
     \<lparr>Bounds = \<lparr>MinX = 0, MinY = 0, Dx = 100, Dy = 100\<rparr>,
      At = (\<lambda>x y. if x = 0 \<and> y = 0 then black
                  else if x = 1 \<and> y = 0 then (0xffff, 0xd3d3, 0, 0xffff)
                  else (0, 0xadad, 0, 0xffff))\<rparr>"

text \<open>
  A run in test mode: the document is read from \<open>doc.pdf\<close>, the extraction leaves one
  image of page 1 beside the document and the pages directory, the Code128 reader finds
  \<open>ABC123\<close> in every bitmap, and every other call succeeds. The page limit and the
  document bytes are the parameters.
\<close>

definition exampleWorld :: "string \<Rightarrow> string \<Rightarrow> world" where
  "exampleWorld limit pdfBytes =
     \<lparr>Getenv = (\<lambda>k. if k = ''TEST_PDF_PATH'' then ''doc.pdf''
                     else if k = ''PDF_PAGE_LIMIT'' then limit
                     else if k = ''API_ENDPOINT'' then ''http://api''
                     else []),
      ReadFile = (\<lambda>path. Inr pdfBytes),
      LoadDefaultConfig = None,
      GetObject = (\<lambda>bucket key. Inl ''no such key''),
      MkdirTemp = Inr ''/tmp/pdf-images-1'',
      WriteFile = (\<lambda>path bytes. None),
      MkdirAll = (\<lambda>path. None),
      ExtractImagesFile = (\<lambda>pdf dir. None),
      ReadDir = (\<lambda>dir. Inr [\<lparr>Name = ''input.pdf'', IsDir = False\<rparr>,
                             \<lparr>Name = ''page_1_a.png'', IsDir = False\<rparr>,
                             \<lparr>Name = ''pages'', IsDir = True\<rparr>]),
      OpenFile = (\<lambda>path. None),
      ImageDecode = (\<lambda>path. Inr (blackImage 1 1)),
      NewBinaryBitmapFromImage = (\<lambda>img. None),
      Decode = (\<lambda>r bmp. if r = Code128 then Inr ''ABC123'' else Inl ''NotFoundException''),
      NewRequest = (\<lambda>url. None),
      ClientDo = (\<lambda>url data. Inr 200)\<rparr>"

section \<open>Verification\<close>

subsection \<open>Rounding to float64\<close>

text \<open>The equations that evaluate a \<open>float64\<close> expression on numerals.\<close>

lemmas float_eval =
  fmul_def fdiv_def fadd_def fl64_def expo_def pow2_def rne_def uint8_def float64_def Let_def
  compute_bitlen

text \<open>
  \<open>expo\<close> is the binary exponent, and rounding neither changes the sign of a value nor
  carries it across an integer it is bounded by.
\<close>

lemma fl64_zero: "fl64 0 = 0"
  by (simp add: fl64_def)

lemma pow2_pos: "0 < pow2 e"
  by (simp add: pow2_def)

lemma rne_range: "\<lfloor>q\<rfloor> \<le> rne q \<and> rne q \<le> \<lceil>q\<rceil>"
proof -
  have "\<lfloor>q\<rfloor> \<le> \<lceil>q\<rceil>" by (rule floor_le_ceiling)
  moreover have "\<lfloor>q\<rfloor> + 1 \<le> \<lceil>q\<rceil>" if "1 / 2 \<le> q - of_int \<lfloor>q\<rfloor>"
  proof -
    from that have "of_int \<lfloor>q\<rfloor> < q" by linarith
    then have "\<lfloor>q\<rfloor> < \<lceil>q\<rceil>" by (simp add: less_ceiling_iff)
    then show ?thesis by simp
  qed
  ultimately show ?thesis
    by (auto simp: rne_def Let_def not_less)
qed

lemma rne_nonneg: "0 \<le> q \<Longrightarrow> 0 \<le> rne q"
proof -
  assume "0 \<le> q"
  then have "0 \<le> \<lfloor>q\<rfloor>" by simp
  with rne_range [of q] show ?thesis by linarith
qed

lemma rne_le_int: "q \<le> of_int k \<Longrightarrow> rne q \<le> k"
proof -
  assume "q \<le> of_int k"
  then have "\<lceil>q\<rceil> \<le> k" by (simp add: ceiling_le)
  with rne_range [of q] show ?thesis by linarith
qed

lemma expo_bounds:
  assumes "0 < q"
  shows "pow2 (expo q) \<le> q \<and> q < pow2 (expo q + 1)"
proof (cases "1 \<le> q")
  case True
  define n where "n = \<lfloor>q\<rfloor>"
  from True have n: "0 < n" by (simp add: n_def)
  from bitlen_bounds [OF n] have lo: "2 ^ nat (bitlen n - 1) \<le> n" and hi: "n < 2 ^ nat (bitlen n)"
    by simp_all
  from n have b: "1 \<le> bitlen n" by (simp add: bitlen_alt_def)
  have e: "expo q = bitlen n - 1" using True by (simp add: expo_def n_def)
  from lo have "real_of_int (2 ^ nat (bitlen n - 1)) \<le> real_of_int n" by (simp only: of_int_le_iff)
  then have "(2::real) ^ nat (bitlen n - 1) \<le> real_of_int n" by simp
  also have "real_of_int n \<le> q" by (simp add: n_def)
  finally have 1: "pow2 (expo q) \<le> q" using b by (simp add: e pow2_def)
  from hi have "n + 1 \<le> 2 ^ nat (bitlen n)" by simp
  then have "real_of_int (n + 1) \<le> real_of_int (2 ^ nat (bitlen n))" by (simp only: of_int_le_iff)
  then have "real_of_int n + 1 \<le> (2::real) ^ nat (bitlen n)" by simp
  moreover have "q < real_of_int n + 1" by (simp add: n_def)
  ultimately have "q < (2::real) ^ nat (bitlen n)" by linarith
  then have 2: "q < pow2 (expo q + 1)" using b by (simp add: e pow2_def)
  from 1 2 show ?thesis ..
next
  case False
  define m where "m = \<lceil>1 / q\<rceil> - 1"
  from False assms have "1 < 1 / q" by simp
  then have m: "0 < m" by (simp add: m_def less_ceiling_iff)
  from bitlen_bounds [OF m] have lo: "2 ^ nat (bitlen m - 1) \<le> m" and hi: "m < 2 ^ nat (bitlen m)"
    by simp_all
  from m have b: "1 \<le> bitlen m" by (simp add: bitlen_alt_def)
  have e: "expo q = - bitlen m" using False by (simp add: expo_def m_def)
  from hi have "m + 1 \<le> 2 ^ nat (bitlen m)" by simp
  then have "real_of_int (m + 1) \<le> real_of_int (2 ^ nat (bitlen m))" by (simp only: of_int_le_iff)
  then have "real_of_int m + 1 \<le> (2::real) ^ nat (bitlen m)" by simp
  moreover have "1 / q \<le> real_of_int m + 1" by (simp add: m_def)
  ultimately have "1 / q \<le> 2 ^ nat (bitlen m)" by linarith
  with assms have 1: "pow2 (expo q) \<le> q" using b
    by (simp add: e pow2_def field_simps)
  from lo have "real_of_int (2 ^ nat (bitlen m - 1)) \<le> real_of_int m" by (simp only: of_int_le_iff)
  then have "(2::real) ^ nat (bitlen m - 1) \<le> real_of_int m" by simp
  moreover have "real_of_int m < 1 / q" unfolding m_def by linarith
  ultimately have "2 ^ nat (bitlen m - 1) < 1 / q" by linarith
  with assms have lt: "q * 2 ^ nat (bitlen m - 1) < 1" by (simp add: field_simps)
  have 2: "q < pow2 (expo q + 1)"
  proof (cases "bitlen m = 1")
    case True
    with lt show ?thesis by (simp add: e pow2_def)
  next
    case False
    with b have "pow2 (expo q + 1) = 1 / 2 ^ nat (bitlen m - 1)"
      by (simp add: e pow2_def)
    moreover from lt have "q < 1 / 2 ^ nat (bitlen m - 1)"
      by (simp add: pos_less_divide_eq)
    ultimately show ?thesis by simp
  qed
  from 1 2 show ?thesis ..
qed

lemma fl64_nonneg: "0 \<le> x \<Longrightarrow> 0 \<le> fl64 x"
proof -
  assume "0 \<le> x"
  then have "0 \<le> rne (x / pow2 (expo \<bar>x\<bar> - 52))"
    using pow2_pos [of "expo \<bar>x\<bar> - 52"] by (intro rne_nonneg) simp
  then show ?thesis
    using pow2_pos [of "expo \<bar>x\<bar> - 52"] by (simp add: fl64_def Let_def)
qed

lemma fl64_le_int:
  assumes "0 < x" and "x \<le> of_int n" and "x < 2 ^ 53"
  shows "fl64 x \<le> of_int n"
proof -
  define k where "k = nat (52 - expo x)"
  from expo_bounds [OF assms(1)] have "pow2 (expo x) \<le> x" by simp
  with assms(3) have small: "pow2 (expo x) < 2 ^ 53" by simp
  have "expo x \<le> 52"
  proof (rule ccontr)
    assume "\<not> expo x \<le> 52"
    then have "53 \<le> nat (expo x)" and "pow2 (expo x) = 2 ^ nat (expo x)"
      by (simp_all add: pow2_def)
    moreover from this(1) have "(2::real) ^ 53 \<le> 2 ^ nat (expo x)"
      by (intro power_increasing) simp_all
    ultimately show False using small by linarith
  qed
  then have ulp: "pow2 (expo x - 52) = 1 / 2 ^ k" "x / pow2 (expo x - 52) = x * 2 ^ k"
    by (auto simp: pow2_def k_def)
  have "x * 2 ^ k \<le> of_int (n * 2 ^ k)" using assms(2) by simp
  then have "rne (x * 2 ^ k) \<le> n * 2 ^ k" by (rule rne_le_int)
  then have "real_of_int (rne (x * 2 ^ k)) \<le> real_of_int (n * 2 ^ k)" by (simp only: of_int_le_iff)
  then have "real_of_int (rne (x * 2 ^ k)) / 2 ^ k \<le> of_int n"
    by (simp add: field_simps)
  with assms(1) show ?thesis by (simp add: fl64_def Let_def ulp)
qed

text \<open>The rounding error is at most half a unit in the last place.\<close>

lemma pow2_powi: "pow2 e = 2 powi e"
  by (simp add: pow2_def power_int_def power_one_over inverse_eq_divide)

lemma pow2_diff: "pow2 (a - b) = pow2 a / pow2 b"
  by (simp add: pow2_powi power_int_diff)

lemma pow2_mono: "a \<le> b \<Longrightarrow> pow2 a \<le> pow2 b"
  by (simp add: pow2_powi power_int_increasing)

lemma expo_unique:
  assumes "pow2 j \<le> x" and "x < pow2 (j + 1)"
  shows "expo x = j"
proof -
  from assms(1) pow2_pos [of j] have "0 < x" by linarith
  from expo_bounds [OF this] have lo: "pow2 (expo x) \<le> x" and hi: "x < pow2 (expo x + 1)"
    by simp_all
  show ?thesis
  proof (rule ccontr)
    assume "expo x \<noteq> j"
    then consider "expo x + 1 \<le> j" | "j + 1 \<le> expo x" by linarith
    then show False
    proof cases
      case 1
      then have "pow2 (expo x + 1) \<le> pow2 j" by (rule pow2_mono)
      with hi assms(1) show False by linarith
    next
      case 2
      then have "pow2 (j + 1) \<le> pow2 (expo x)" by (rule pow2_mono)
      with lo assms(2) show False by linarith
    qed
  qed
qed

lemma rne_err: "\<bar>real_of_int (rne q) - q\<bar> \<le> 1 / 2"
proof -
  have "of_int \<lfloor>q\<rfloor> \<le> q" "q < of_int \<lfloor>q\<rfloor> + 1" by linarith+
  then show ?thesis by (auto simp: rne_def Let_def)
qed

lemma rne_near:
  assumes "\<bar>q - of_int N\<bar> < 1 / 2"
  shows "rne q = N"
proof -
  from rne_err [of q] assms have "\<bar>real_of_int (rne q) - of_int N\<bar> < 1" by linarith
  then have "\<bar>real_of_int (rne q - N)\<bar> < 1" by simp
  then have "\<bar>rne q - N\<bar> < 1" by linarith
  then show ?thesis by simp
qed

lemma fl64_err:
  assumes "0 < x"
  shows "\<bar>fl64 x - x\<bar> \<le> pow2 (expo x - 53)"
proof -
  let ?u = "pow2 (expo x - 52)"
  have u: "0 < ?u" by (rule pow2_pos)
  have half: "pow2 (expo x - 53) = ?u / 2"
    using pow2_diff [of "expo x - 52" 1] by (simp add: pow2_def)
  have "fl64 x = of_int (rne (x / ?u)) * ?u"
    using assms by (simp add: fl64_def Let_def)
  then have "fl64 x - x = (of_int (rne (x / ?u)) - x / ?u) * ?u"
    using u by (simp add: field_simps)
  then have "\<bar>fl64 x - x\<bar> = \<bar>of_int (rne (x / ?u)) - x / ?u\<bar> * ?u"
    using u by (simp add: abs_mult)
  also have "\<dots> \<le> (1 / 2) * ?u"
    using rne_err [of "x / ?u"] u by (intro mult_right_mono) simp_all
  finally show ?thesis by (simp add: half)
qed

lemma fl64_rel_err:
  assumes "0 < x"
  shows "\<bar>fl64 x - x\<bar> \<le> x / 2 ^ 53"
proof -
  have "pow2 (expo x - 53) = pow2 (expo x) / 2 ^ 53"
    using pow2_diff [of "expo x" 53] by (simp add: pow2_def)
  also have "\<dots> \<le> x / 2 ^ 53"
    using expo_bounds [OF assms] by (simp add: divide_right_mono)
  finally show ?thesis using fl64_err [OF assms] by linarith
qed

subsection \<open>The stretch quotient in float64\<close>

text \<open>
  When \<open>(original - min) * 255 / (max - min)\<close> is an integer \<open>E\<close>, the quotient is
  \<open>E / 255\<close>, and multiplying its \<open>float64\<close> value by 255 gives \<open>E\<close> back exactly.
  Between two powers of two the error of the quotient is too small to move the product
  away from \<open>E\<close>; the powers of two themselves are evaluated.
\<close>

lemma stretch_exact_in_binade:
  fixes E :: int and j :: nat
  assumes j: "j \<le> 7" and lo: "2 ^ j < E" and hi: "E < 2 ^ (j + 1)" and top: "E \<le> 254"
  shows "fl64 (fl64 (of_int E / 255) * 255) = of_int E"
proof -
  define P :: real where "P = 2 ^ j"
  have "(2::real) ^ j \<le> 2 ^ 7" using j by (intro power_increasing) simp_all
  then have P: "1 \<le> P" "P \<le> 128" by (simp_all add: P_def)
  have pw: "pow2 (int j) = P" "pow2 (int j + 1) = 2 * P"
    by (simp_all add: pow2_def P_def nat_add_distrib)
  have pd: "pow2 (int j - 8) = P / 256" "pow2 (int j - 7) = P / 128"
    "pow2 (int j - 61) = P / 2 ^ 61" "pow2 (int j - 53) = P / 2 ^ 53"
    "pow2 (int j - 52) = P / 2 ^ 52"
    using pow2_diff [of "int j" 8] pow2_diff [of "int j" 7] pow2_diff [of "int j" 61]
      pow2_diff [of "int j" 53] pow2_diff [of "int j" 52]
    by (simp_all add: pw) (simp_all add: pow2_def)
  from lo have "2 ^ j + 1 \<le> E" by simp
  then have "real_of_int (2 ^ j + 1) \<le> real_of_int E" by (simp only: of_int_le_iff)
  then have E1: "P + 1 \<le> real_of_int E" by (simp add: P_def)
  from hi have "E + 1 \<le> 2 ^ (j + 1)" by simp
  then have "real_of_int (E + 1) \<le> real_of_int (2 ^ (j + 1))" by (simp only: of_int_le_iff)
  then have E2: "real_of_int E \<le> 2 * P - 1" by (simp add: P_def)
  from top have E3: "real_of_int E \<le> 254" by simp
  let ?x0 = "real_of_int E / 255"
  have x0: "pow2 (int j - 8) \<le> ?x0" "?x0 < pow2 (int j - 8 + 1)"
    using E1 E2 E3 P pd(1,2) by (simp_all add: field_simps)
  have x0pos: "0 < ?x0" using E1 P by simp
  have ex0: "expo ?x0 = int j - 8" using x0 by (rule expo_unique)
  define y where "y = fl64 ?x0"
  have "expo ?x0 - 53 = int j - 61" using ex0 by simp
  with fl64_err [OF x0pos] have "\<bar>y - ?x0\<bar> \<le> pow2 (int j - 61)" by (simp add: y_def)
  then have yerr: "\<bar>y - ?x0\<bar> \<le> P / 2 ^ 61" by (simp only: pd)
  define z where "z = y * 255"
  have "z - real_of_int E = 255 * (y - ?x0)" by (simp add: z_def)
  then have "\<bar>z - real_of_int E\<bar> = \<bar>255 * (y - ?x0)\<bar>" by (simp only:)
  also have "\<dots> = \<bar>255\<bar> * \<bar>y - ?x0\<bar>" by (rule abs_mult)
  also have "\<dots> = 255 * \<bar>y - ?x0\<bar>" by simp
  finally have zeq: "\<bar>z - real_of_int E\<bar> = 255 * \<bar>y - ?x0\<bar>" .
  from yerr have "255 * \<bar>y - ?x0\<bar> \<le> 255 * (P / 2 ^ 61)"
    by (intro mult_left_mono) simp_all
  then have zerr: "\<bar>z - real_of_int E\<bar> \<le> 255 * (P / 2 ^ 61)" by (simp only: zeq)
  have zh: "\<bar>z - real_of_int E\<bar> < P / 2 ^ 53" using zerr P by simp
  define h where "h = P / 2 ^ 53"
  have h: "h \<le> 1" using P by (simp add: h_def)
  from zh have "real_of_int E - h < z" "z < real_of_int E + h"
    unfolding h_def [symmetric] by (simp_all add: abs_less_iff)
  with h E1 E2 have "P \<le> z" "z < 2 * P" by linarith+
  then have zb: "pow2 (int j) \<le> z" "z < pow2 (int j + 1)"
    by (simp_all only: pw)
  have zpos: "0 < z" using zb(1) pw(1) P by simp
  have ez: "expo z = int j" using zb by (rule expo_unique)
  define N where "N = E * 2 ^ (52 - j)"
  have u: "pow2 (int j - 52) = 1 / 2 ^ (52 - j)"
    using j by (simp add: pow2_def nat_diff_distrib)
  have NE: "real_of_int N * pow2 (int j - 52) = real_of_int E"
    by (simp add: N_def u)
  have "rne (z / pow2 (int j - 52)) = N"
  proof (rule rne_near)
    define w where "w = pow2 (int j - 52)"
    have w: "0 < w" unfolding w_def by (rule pow2_pos)
    have wP: "(P / 2 ^ 53) / w = 1 / 2" using P by (simp add: w_def pd)
    from NE have "real_of_int N = real_of_int E / w"
      using w by (simp add: w_def field_simps)
    then have "z / w - real_of_int N = (z - real_of_int E) / w"
      by (simp add: diff_divide_distrib)
    then have "\<bar>z / w - real_of_int N\<bar> = \<bar>z - real_of_int E\<bar> / w"
      using w by (simp only: abs_divide abs_of_pos)
    also have "\<dots> < (P / 2 ^ 53) / w"
      using zh w by (rule divide_strict_right_mono)
    also note wP
    finally show "\<bar>z / pow2 (int j - 52) - real_of_int N\<bar> < 1 / 2"
      by (simp only: w_def)
  qed
  moreover have "fl64 z = of_int (rne (z / pow2 (int j - 52))) * pow2 (int j - 52)"
    using zpos ez by (simp add: fl64_def Let_def)
  ultimately show ?thesis using NE by (simp add: y_def z_def)
qed

lemma stretch_exact_powers:
  "fl64 (fl64 (1 / 255) * 255) = 1"
  "fl64 (fl64 (2 / 255) * 255) = 2"
  "fl64 (fl64 (4 / 255) * 255) = 4"
  "fl64 (fl64 (8 / 255) * 255) = 8"
  "fl64 (fl64 (16 / 255) * 255) = 16"
  "fl64 (fl64 (32 / 255) * 255) = 32"
  "fl64 (fl64 (64 / 255) * 255) = 64"
  "fl64 (fl64 (128 / 255) * 255) = 128"
  "fl64 (fl64 1 * 255) = 255"
  by (simp_all add: float_eval)

lemma stretch_exact_integer:
  fixes E :: int
  assumes "0 \<le> E" and "E \<le> 255"
  shows "fl64 (fl64 (of_int E / 255) * 255) = of_int E"
proof -
  from assms consider "E = 0" | "E = 1" | "E = 2" | "E = 4" | "E = 8" | "E = 16" | "E = 32"
    | "E = 64" | "E = 128" | "E = 255"
    | "2 < E \<and> E < 4" | "4 < E \<and> E < 8" | "8 < E \<and> E < 16" | "16 < E \<and> E < 32"
    | "32 < E \<and> E < 64" | "64 < E \<and> E < 128" | "128 < E \<and> E < 255"
    by atomize_elim presburger
  then show ?thesis
  proof cases
    case 1
    then show ?thesis by (simp add: fl64_zero)
  next
    case 11
    with stretch_exact_in_binade [of 1 E] show ?thesis by simp
  next
    case 12
    with stretch_exact_in_binade [of 2 E] show ?thesis by simp
  next
    case 13
    with stretch_exact_in_binade [of 3 E] show ?thesis by simp
  next
    case 14
    with stretch_exact_in_binade [of 4 E] show ?thesis by simp
  next
    case 15
    with stretch_exact_in_binade [of 5 E] show ?thesis by simp
  next
    case 16
    with stretch_exact_in_binade [of 6 E] show ?thesis by simp
  next
    case 17
    with stretch_exact_in_binade [of 7 E] show ?thesis by simp
  qed (simp_all add: stretch_exact_powers)
qed

text \<open>
  Otherwise the exact value is at least \<open>1 / 255\<close> away from the integers on both sides,
  far more than the two rounding errors together, so the \<open>float64\<close> value has the same
  integer part. In both cases the integer part is the integer quotient.
\<close>

lemma stretch_floor:
  fixes a d :: nat
  assumes ad: "a \<le> d" and d0: "0 < d" and d255: "d \<le> 255"
  shows "\<lfloor>fl64 (fl64 (real a / real d) * 255)\<rfloor> = int (a * 255 div d)"
proof (cases "d dvd a * 255")
  case True
  define E where "E = int (a * 255 div d)"
  from True have "a * 255 = (a * 255 div d) * d" by simp
  then have "real (a * 255) = real ((a * 255 div d) * d)" by (simp only:)
  then have "real a * 255 = real_of_int E * real d" by (simp add: E_def)
  with d0 have q: "real a / real d = real_of_int E / 255" by (simp add: field_simps)
  from ad have "a * 255 \<le> d * 255" by simp
  then have "a * 255 div d \<le> d * 255 div d" by (rule div_le_mono)
  then have "a * 255 div d \<le> 255" using d0 by simp
  then have "0 \<le> E" "E \<le> 255" by (simp_all add: E_def)
  from stretch_exact_integer [OF this] show ?thesis by (simp add: q E_def)
next
  case False
  define k where "k = a * 255 div d"
  define r where "r = a * 255 mod d"
  from False have r1: "1 \<le> r" by (simp add: r_def dvd_eq_mod_eq_0 Suc_le_eq)
  have r2: "r + 1 \<le> d" using d0 by (simp add: r_def Suc_le_eq)
  have "a * 255 = k * d + r" by (simp add: k_def r_def)
  then have "real (a * 255) = real (k * d + r)" by (simp only:)
  then have split: "real a * 255 = real k * real d + real r" by simp
  define x0 where "x0 = real a / real d"
  define E where "E = x0 * 255"
  have Ek: "E = real k + real r / real d"
    using split d0 by (simp add: E_def x0_def field_simps)
  have dr: "1 \<le> real d" "real d \<le> 255" using d0 d255 by simp_all
  have "1 / 255 \<le> real r / real d"
    using r1 dr d0 by (simp add: field_simps)
  moreover have "real r / real d \<le> 1 - 1 / 255"
  proof -
    from r2 have "real r + 1 \<le> real d" by linarith
    then have "real r / real d \<le> (real d - 1) / real d"
      using d0 by (simp add: divide_right_mono)
    also have "\<dots> = 1 - 1 / real d" using d0 by (simp add: field_simps)
    also have "\<dots> \<le> 1 - 1 / 255" using dr d0 by (simp add: field_simps)
    finally show ?thesis .
  qed
  ultimately have E1: "real k + 1 / 255 \<le> E" and E2: "E \<le> real k + 1 - 1 / 255"
    by (simp_all add: Ek)
  have "a \<noteq> 0"
  proof
    assume "a = 0"
    with False show False by simp
  qed
  with d0 ad have x0: "0 < x0" "x0 \<le> 1" by (simp_all add: x0_def)
  define eps :: real where "eps = 1 / 2 ^ 53"
  have eps: "0 < eps" "511 * eps < 1 / 255" by (simp_all add: eps_def)
  define y where "y = fl64 x0"
  from x0(2) have "x0 / 2 ^ 53 \<le> 1 / 2 ^ 53" by (simp add: divide_right_mono)
  with fl64_rel_err [OF x0(1)] have yerr: "\<bar>y - x0\<bar> \<le> eps"
    unfolding y_def eps_def by linarith
  define z where "z = y * 255"
  have "z - E = 255 * (y - x0)" by (simp add: z_def E_def)
  then have "\<bar>z - E\<bar> = \<bar>255 * (y - x0)\<bar>" by (simp only:)
  also have "\<dots> = \<bar>255\<bar> * \<bar>y - x0\<bar>" by (rule abs_mult)
  also have "\<dots> = 255 * \<bar>y - x0\<bar>" by simp
  finally have zeq: "\<bar>z - E\<bar> = 255 * \<bar>y - x0\<bar>" .
  from yerr have "255 * \<bar>y - x0\<bar> \<le> 255 * eps" by (intro mult_left_mono) simp_all
  then have "\<bar>z - E\<bar> \<le> 255 * eps" by (simp only: zeq)
  then have z1: "E - 255 * eps \<le> z" and z2: "z \<le> E + 255 * eps"
    by (simp_all add: abs_le_iff)
  from x0(2) have E255: "E \<le> 255" by (simp add: E_def)
  have k0: "0 \<le> real k" by simp
  from z1 E1 k0 eps have zpos: "0 < z" by linarith
  from z2 E255 eps have z256: "z \<le> 256" by linarith
  define v where "v = fl64 z"
  from z256 have "z / 2 ^ 53 \<le> 256 / 2 ^ 53" by (simp add: divide_right_mono)
  with fl64_rel_err [OF zpos] have "\<bar>v - z\<bar> \<le> 256 * eps"
    unfolding v_def eps_def by linarith
  then have v1: "z - 256 * eps \<le> v" and v2: "v \<le> z + 256 * eps"
    by (simp_all add: abs_le_iff)
  from v1 z1 E1 eps have "real k \<le> v" by linarith
  then have "real_of_int (int k) \<le> v" by simp
  moreover from v2 z2 E2 eps have "v < real k + 1" by linarith
  then have "v < real_of_int (int k) + 1" by simp
  ultimately have "\<lfloor>v\<rfloor> = int k" by (rule floor_unique)
  then show ?thesis by (simp add: v_def z_def y_def x0_def k_def)
qed

lemma stretch_floor_word:
  fixes a d :: "8 word"
  assumes "unat a \<le> unat d" and "d \<noteq> 0"
  shows "\<lfloor>fmul (fdiv (float64 a) (float64 d)) 255\<rfloor> = int (unat a * 255 div unat d)"
proof -
  from assms(2) have "0 < unat d" by (simp add: unat_gt_0)
  moreover have "unat d < 2 ^ LENGTH(8)" by (rule unsigned_less)
  then have "unat d \<le> 255" by simp
  ultimately show ?thesis
    using stretch_floor [OF assms(1)] by (simp only: fmul_def fdiv_def float64_def)
qed

subsection \<open>The value before binarization\<close>

text \<open>
  With \<open>original - min\<close> at most \<open>max - min\<close> the \<open>float64\<close> value lies between 0 and
  255, so the conversion to \<open>uint8\<close> is its integer part, the integer quotient. With the
  full range the value is the gray pixel itself.
\<close>

lemma float64_nonneg: "0 \<le> float64 v"
  unfolding float64_def by (rule of_nat_0_le_iff)

lemma float64_pos:
  assumes "v \<noteq> 0"
  shows "0 < float64 v"
proof -
  from assms have "0 < unat v" by (simp add: unat_gt_0)
  then show ?thesis unfolding float64_def by (simp only: of_nat_0_less_iff)
qed

lemma float64_mono: "unat a \<le> unat b \<Longrightarrow> float64 a \<le> float64 b"
  unfolding float64_def by (simp only: of_nat_le_iff)

lemma stretch_value_range:
  assumes "unat a \<le> unat d" and "d \<noteq> 0"
  shows "0 \<le> fmul (fdiv (float64 a) (float64 d)) 255 \<and> fmul (fdiv (float64 a) (float64 d)) 255 \<le> 255"
proof -
  let ?q = "float64 a / float64 d"
  from assms(2) have d: "0 < float64 d" by (rule float64_pos)
  have a: "0 \<le> float64 a" by (rule float64_nonneg)
  from assms(1) have "float64 a \<le> float64 d" by (rule float64_mono)
  with d have q: "0 \<le> ?q" "?q \<le> 1" using a by simp_all
  have y0: "0 \<le> fl64 ?q" using q(1) by (rule fl64_nonneg)
  have y1: "fl64 ?q \<le> 1"
  proof (cases "?q = 0")
    case True
    then have "fl64 ?q = 0" by (simp only: fl64_zero)
    then show ?thesis by simp
  next
    case False
    with q(1) have "0 < ?q" by (simp only: order_less_le) simp
    moreover from q(2) have "?q \<le> of_int 1" "?q < 2 ^ 53" by simp_all
    ultimately have "0 < ?q" "?q \<le> of_int 1" "?q < 2 ^ 53" by blast+
    from fl64_le_int [OF this] show ?thesis by simp
  qed
  have v0: "0 \<le> fl64 (fl64 ?q * 255)" using y0 by (intro fl64_nonneg) simp
  have v1: "fl64 (fl64 ?q * 255) \<le> 255"
  proof (cases "fl64 ?q * 255 = 0")
    case True
    then have "fl64 (fl64 ?q * 255) = 0" by (simp only: fl64_zero)
    then show ?thesis by simp
  next
    case False
    with y0 have "0 < fl64 ?q * 255" by (simp add: order_less_le)
    moreover from y1 have "fl64 ?q * 255 \<le> of_int 255" "fl64 ?q * 255 < 2 ^ 53" by simp_all
    ultimately have "0 < fl64 ?q * 255" "fl64 ?q * 255 \<le> of_int 255" "fl64 ?q * 255 < 2 ^ 53"
      by blast+
    from fl64_le_int [OF this] show ?thesis by simp
  qed
  from v0 v1 show ?thesis by (simp add: fmul_def fdiv_def)
qed

lemma normalized_quotient:
  fixes a d :: "8 word"
  assumes le: "unat a \<le> unat d" and nz: "d \<noteq> 0"
  shows "uint (uint8 (fmul (fdiv (float64 a) (float64 d)) 255)) =
           \<lfloor>fmul (fdiv (float64 a) (float64 d)) 255\<rfloor>"
    and "unat (uint8 (fmul (fdiv (float64 a) (float64 d)) 255)) = unat a * 255 div unat d"
proof -
  let ?v = "fmul (fdiv (float64 a) (float64 d)) 255"
  from stretch_value_range [OF le nz] have v: "0 \<le> ?v" "?v \<le> 255" by blast+
  then have "0 \<le> \<lfloor>?v\<rfloor>" "\<lfloor>?v\<rfloor> < 256" by (simp_all add: floor_less_iff)
  then show trunc: "uint (uint8 ?v) = \<lfloor>?v\<rfloor>"
    using v(1) by (simp add: uint8_def uint_word_of_int)
  from stretch_floor_word [OF le nz] trunc
  have "uint (uint8 ?v) = int (unat a * 255 div unat d)" by (simp only:)
  then show "unat (uint8 ?v) = unat a * 255 div unat d"
    by (simp only: uint_nat of_nat_eq_iff)
qed

lemma normalized_full_range: "normalized v 0 255 = v"
proof -
  have "unat v < 2 ^ LENGTH(8)" by (rule unsigned_less)
  then have "unat v \<le> unat (255 :: 8 word)" by simp
  from normalized_quotient(2) [OF this] have "unat (normalized v 0 255) = unat v"
    by (simp add: normalized_def)
  then show ?thesis by (simp only: word_unat_eq_iff)
qed

subsection \<open>The two passes of preprocessImage\<close>

lemma GraySet_Rect: "Rect (GraySet g x y v) = Rect g"
  by (simp add: GraySet_def)

lemma GraySet_Pix:
  "Pix (GraySet g x y v) p = (if PointIn (x, y) (Rect g) \<and> p = (x, y) then v else Pix g p)"
  by (simp add: GraySet_def)

lemma pixelCoords_set: "set (pixelCoords b) = {p. PointIn p b}"
  by (auto simp: pixelCoords_def PointIn_def)

lemma threshold_cases: "threshold n = 0 \<or> threshold n = 255"
  by (simp add: threshold_def)

lemma secondStep_Rect: "Rect (secondStep g mn mx p e) = Rect e"
  by (simp add: secondStep_def GraySet_Rect)

lemma secondStep_Pix:
  "Pix (secondStep g mn mx a e) q =
     (if PointIn a (Rect e) \<and> q = a then threshold (normalized (GrayAt g (fst a) (snd a)) mn mx)
      else Pix e q)"
  by (cases a) (simp add: secondStep_def GraySet_Pix)

lemma second_fold_Rect: "Rect (fold (secondStep g mn mx) ps e) = Rect e"
  by (induction ps arbitrary: e) (simp_all add: secondStep_Rect)

lemma second_fold_bw:
  "(\<And>p. Pix e p = 0 \<or> Pix e p = 255) \<Longrightarrow>
     Pix (fold (secondStep g mn mx) ps e) q = 0 \<or> Pix (fold (secondStep g mn mx) ps e) q = 255"
proof (induction ps arbitrary: e)
  case Nil
  then show ?case by simp
next
  case (Cons a ps)
  have "\<And>p. Pix (secondStep g mn mx a e) p = 0 \<or> Pix (secondStep g mn mx a e) p = 255"
    using Cons.prems threshold_cases by (simp add: secondStep_Pix)
  from Cons.IH [OF this] show ?case by simp
qed

lemma second_fold_untouched:
  "q \<notin> set ps \<Longrightarrow> Pix (fold (secondStep g mn mx) ps e) q = Pix e q"
  by (induction ps arbitrary: e) (simp_all add: secondStep_Pix)

lemma second_fold_pixel:
  "q \<in> set ps \<Longrightarrow> PointIn q (Rect e) \<Longrightarrow>
     Pix (fold (secondStep g mn mx) ps e) q = threshold (normalized (GrayAt g (fst q) (snd q)) mn mx)"
proof (induction ps arbitrary: e)
  case Nil
  then show ?case by simp
next
  case (Cons a ps)
  show ?case
  proof (cases "q \<in> set ps")
    case True
    with Cons.IH [of "secondStep g mn mx a e"] Cons.prems show ?thesis
      by (simp add: secondStep_Rect)
  next
    case False
    with Cons.prems have "q = a" by simp
    with False Cons.prems show ?thesis
      by (simp add: second_fold_untouched secondStep_Pix)
  qed
qed

lemma firstStep_Rect: "Rect (snd (snd (firstStep img p s))) = Rect (snd (snd s))"
  by (simp add: firstStep_def GraySet_Rect Let_def split: prod.splits)

lemma firstStep_Pix:
  "Pix (snd (snd (firstStep img a s))) q =
     (if PointIn a (Rect (snd (snd s))) \<and> q = a then grayVal (At img (fst a) (snd a))
      else Pix (snd (snd s)) q)"
  by (cases a) (simp add: firstStep_def GraySet_Pix Let_def split: prod.splits)

lemma firstStep_min:
  "fst (firstStep img a s) = min (grayVal (At img (fst a) (snd a))) (fst s)"
  by (cases s) (auto simp: firstStep_def Let_def min_def)

lemma firstStep_max:
  "fst (snd (firstStep img a s)) = max (grayVal (At img (fst a) (snd a))) (fst (snd s))"
  by (cases s) (auto simp: firstStep_def Let_def max_def)

lemma first_fold_Rect: "Rect (snd (snd (fold (firstStep img) ps s))) = Rect (snd (snd s))"
  by (induction ps arbitrary: s) (simp_all add: firstStep_Rect)

lemma first_fold_untouched:
  "q \<notin> set ps \<Longrightarrow> Pix (snd (snd (fold (firstStep img) ps s))) q = Pix (snd (snd s)) q"
  by (induction ps arbitrary: s) (simp_all add: firstStep_Pix)

lemma first_fold_pixel:
  "q \<in> set ps \<Longrightarrow> PointIn q (Rect (snd (snd s))) \<Longrightarrow>
     Pix (snd (snd (fold (firstStep img) ps s))) q = grayVal (At img (fst q) (snd q))"
proof (induction ps arbitrary: s)
  case Nil
  then show ?case by simp
next
  case (Cons a ps)
  show ?case
  proof (cases "q \<in> set ps")
    case True
    with Cons.IH [of "firstStep img a s"] Cons.prems show ?thesis
      by (simp add: firstStep_Rect)
  next
    case False
    with Cons.prems have "q = a" by simp
    with False Cons.prems show ?thesis
      by (simp add: first_fold_untouched firstStep_Pix)
  qed
qed

lemma first_fold_min_le:
  "fst (fold (firstStep img) ps s) \<le> fst s \<and>
   (\<forall>q \<in> set ps. fst (fold (firstStep img) ps s) \<le> grayVal (At img (fst q) (snd q)))"
proof (induction ps arbitrary: s)
  case Nil
  then show ?case by simp
next
  case (Cons a ps)
  have "fst (firstStep img a s) \<le> fst s" "fst (firstStep img a s) \<le> grayVal (At img (fst a) (snd a))"
    by (simp_all add: firstStep_min firstStep_max)
  with Cons.IH [of "firstStep img a s"] show ?case by auto
qed

lemma first_fold_max_ge:
  "fst (snd s) \<le> fst (snd (fold (firstStep img) ps s)) \<and>
   (\<forall>q \<in> set ps. grayVal (At img (fst q) (snd q)) \<le> fst (snd (fold (firstStep img) ps s)))"
proof (induction ps arbitrary: s)
  case Nil
  then show ?case by simp
next
  case (Cons a ps)
  have "fst (snd s) \<le> fst (snd (firstStep img a s))"
    "grayVal (At img (fst a) (snd a)) \<le> fst (snd (firstStep img a s))"
    by (simp_all add: firstStep_min firstStep_max)
  with Cons.IH [of "firstStep img a s"] show ?case by auto
qed

lemma first_fold_min_ge:
  "lo \<le> fst s \<Longrightarrow> (\<And>q. q \<in> set ps \<Longrightarrow> lo \<le> grayVal (At img (fst q) (snd q))) \<Longrightarrow>
     lo \<le> fst (fold (firstStep img) ps s)"
proof (induction ps arbitrary: s)
  case Nil
  then show ?case by simp
next
  case (Cons a ps)
  have "lo \<le> fst (firstStep img a s)"
    using Cons.prems by (simp add: firstStep_min firstStep_max)
  with Cons.IH [of "firstStep img a s"] Cons.prems show ?case by simp
qed

lemma first_fold_max_le:
  "fst (snd s) \<le> hi \<Longrightarrow> (\<And>q. q \<in> set ps \<Longrightarrow> grayVal (At img (fst q) (snd q)) \<le> hi) \<Longrightarrow>
     fst (snd (fold (firstStep img) ps s)) \<le> hi"
proof (induction ps arbitrary: s)
  case Nil
  then show ?case by simp
next
  case (Cons a ps)
  have "fst (snd (firstStep img a s)) \<le> hi"
    using Cons.prems by (simp add: firstStep_min firstStep_max)
  with Cons.IH [of "firstStep img a s"] Cons.prems show ?case by simp
qed


lemma firstPass_parts: "firstPass img = (firstPassMin img, firstPassMax img, firstPassGray img)"
  by (simp add: firstPassMin_def firstPassMax_def firstPassGray_def)

lemma preprocessImage_decision:
  "preprocessImage img =
     (case contrastDecision (Bounds img) (firstPassMin img) (firstPassMax img) of
        None \<Rightarrow> firstPassGray img
      | Some (mn, mx) \<Rightarrow> secondPass (Bounds img) (firstPassGray img) mn mx)"
  by (simp add: preprocessImage_def firstPass_parts Let_def)

lemma firstPassGray_Rect: "Rect (firstPassGray img) = Bounds img"
  by (simp add: firstPassGray_def firstPass_def first_fold_Rect NewGray_def)

lemma firstPassGray_pixel:
  "PointIn (x, y) (Bounds img) \<Longrightarrow> Pix (firstPassGray img) (x, y) = grayVal (At img x y)"
  using first_fold_pixel [of "(x, y)" "pixelCoords (Bounds img)" "(255, 0, NewGray (Bounds img))" img]
  by (simp add: firstPassGray_def firstPass_def pixelCoords_set NewGray_def)

lemma firstPassGray_outside:
  "\<not> PointIn p (Bounds img) \<Longrightarrow> Pix (firstPassGray img) p = 0"
  by (simp add: firstPassGray_def firstPass_def first_fold_untouched pixelCoords_set NewGray_def)

lemma firstPass_min_le_pixel:
  "PointIn (x, y) (Bounds img) \<Longrightarrow> firstPassMin img \<le> grayVal (At img x y)"
  using first_fold_min_le [of img "pixelCoords (Bounds img)" "(255, 0, NewGray (Bounds img))"]
  by (auto simp: firstPassMin_def firstPass_def pixelCoords_set)

lemma firstPass_pixel_le_max:
  "PointIn (x, y) (Bounds img) \<Longrightarrow> grayVal (At img x y) \<le> firstPassMax img"
  using first_fold_max_ge [of "(255, 0, NewGray (Bounds img))" img "pixelCoords (Bounds img)"]
  by (auto simp: firstPassMax_def firstPass_def pixelCoords_set)

lemma secondPass_Rect: "Rect (secondPass b g mn mx) = b"
  by (simp add: secondPass_def second_fold_Rect NewGray_def)

lemma secondPass_pixel:
  "PointIn (x, y) b \<Longrightarrow>
     Pix (secondPass b g mn mx) (x, y) = threshold (normalized (GrayAt g x y) mn mx)"
  using second_fold_pixel [of "(x, y)" "pixelCoords b" "NewGray b" g mn mx]
  by (simp add: secondPass_def pixelCoords_set NewGray_def)

lemma secondPass_bw: "Pix (secondPass b g mn mx) p = 0 \<or> Pix (secondPass b g mn mx) p = 255"
  unfolding secondPass_def by (rule second_fold_bw) (simp add: NewGray_def)


subsection \<open>The example images\<close>

lemma grayVal_black: "grayVal black = 0"
  by (simp add: grayVal_def black_def fmul_def fadd_def float64_def fl64_zero uint8_def)

lemma first_fold_uniform:
  "\<forall>p \<in> set ps. grayVal (At img (fst p) (snd p)) = v \<Longrightarrow>
     fst (fold (firstStep img) ps s) = (if ps = [] then fst s else min v (fst s)) \<and>
     fst (snd (fold (firstStep img) ps s)) = (if ps = [] then fst (snd s) else max v (fst (snd s)))"
proof (induction ps arbitrary: s)
  case Nil
  show ?case by simp
next
  case (Cons a ps)
  then have "grayVal (At img (fst a) (snd a)) = v" by simp
  with Cons.IH [of "firstStep img a s"] Cons.prems show ?case
    by (simp add: firstStep_min firstStep_max)
qed

lemma blackImage_range: "firstPassMax (blackImage w h) - firstPassMin (blackImage w h) < 30"
proof -
  have "\<forall>p \<in> set (pixelCoords (Bounds (blackImage w h))).
          grayVal (At (blackImage w h) (fst p) (snd p)) = 0"
    by (simp add: blackImage_def grayVal_black)
  from first_fold_uniform [OF this, of "(255, 0, NewGray (Bounds (blackImage w h)))"]
  have "firstPassMax (blackImage w h) = 0" "firstPassMin (blackImage w h) = 0 \<or> firstPassMin (blackImage w h) = 255"
    by (auto simp: firstPassMax_def firstPassMin_def firstPass_def)
  then show ?thesis by auto
qed

lemma normalized_101_0_200: "normalized 101 0 200 = 128"
  by (simp add: normalized_def float_eval)

lemma spec_normalized_101_0_200: "spec_normalized 101 0 200 = 129"
  by (simp add: spec_normalized_def round_def)

lemma grayVal_level_200: "grayVal (0xffff, 0xd3d3, 0, 0xffff) = 200"
  by (simp add: grayVal_def float_eval)

lemma grayVal_level_101: "grayVal (0, 0xadad, 0, 0xffff) = 101"
  by (simp add: grayVal_def float_eval)

lemma threeLevel_values:
  "grayVal (At threeLevelImage x y) =
     (if x = 0 \<and> y = 0 then 0 else if x = 1 \<and> y = 0 then 200 else 101)"
  by (simp add: threeLevelImage_def grayVal_black grayVal_level_200 grayVal_level_101)

lemma threeLevel_inside:
  "PointIn (0, 0) (Bounds threeLevelImage)" "PointIn (1, 0) (Bounds threeLevelImage)"
  "PointIn (2, 0) (Bounds threeLevelImage)"
  by (simp_all add: PointIn_def threeLevelImage_def MaxX_def MaxY_def)

lemma threeLevel_min: "firstPassMin threeLevelImage = 0"
  using firstPass_min_le_pixel [OF threeLevel_inside(1)] by (simp add: threeLevel_values)

lemma threeLevel_max: "firstPassMax threeLevelImage = 200"
proof -
  have "firstPassMax threeLevelImage \<le> 200"
    unfolding firstPassMax_def firstPass_def
    by (rule first_fold_max_le) (simp_all add: threeLevel_values)
  moreover have "200 \<le> firstPassMax threeLevelImage"
    using firstPass_pixel_le_max [OF threeLevel_inside(2)] by (simp add: threeLevel_values)
  ultimately show ?thesis by simp
qed

lemma threeLevel_decision:
  "contrastDecision (Bounds threeLevelImage) (firstPassMin threeLevelImage) (firstPassMax threeLevelImage)
     = Some (0, 200)"
  by (simp add: contrastDecision_def threeLevel_min threeLevel_max) (simp add: threeLevelImage_def)

lemma threeLevel_pixel: "GrayAt (preprocessImage threeLevelImage) 2 0 = 0"
proof -
  have "preprocessImage threeLevelImage =
      secondPass (Bounds threeLevelImage) (firstPassGray threeLevelImage) 0 200"
    by (simp add: preprocessImage_decision threeLevel_decision)
  moreover have "GrayAt (firstPassGray threeLevelImage) 2 0 = 101"
    using threeLevel_inside(3)
    by (simp add: GrayAt_def firstPassGray_Rect firstPassGray_pixel threeLevel_values)
  ultimately show ?thesis
    using threeLevel_inside(3)
    by (simp add: GrayAt_def secondPass_Rect secondPass_pixel normalized_101_0_200 threshold_def)
qed

lemma grayVal_bright: "grayVal bright = 200"
  by (simp add: bright_def grayVal_level_200)

lemma brightImage_first_pass:
  assumes "0 < w" and "0 < h"
  shows "firstPassMin (brightImage w h) = 200" and "firstPassMax (brightImage w h) = 200"
proof -
  have "PointIn (0, 0) (Bounds (brightImage w h))"
    using assms by (simp add: PointIn_def brightImage_def MaxX_def MaxY_def)
  then have "pixelCoords (Bounds (brightImage w h)) \<noteq> []"
    using pixelCoords_set [of "Bounds (brightImage w h)"] by auto
  moreover have "\<forall>p \<in> set (pixelCoords (Bounds (brightImage w h))).
          grayVal (At (brightImage w h) (fst p) (snd p)) = 200"
    by (simp add: brightImage_def grayVal_bright)
  from first_fold_uniform [OF this, of "(255, 0, NewGray (Bounds (brightImage w h)))"]
  have "firstPassMin (brightImage w h) =
          (if pixelCoords (Bounds (brightImage w h)) = [] then 255 else min 200 255)"
    and "firstPassMax (brightImage w h) =
          (if pixelCoords (Bounds (brightImage w h)) = [] then 0 else max 200 0)"
    by (simp_all add: firstPassMax_def firstPassMin_def firstPass_def)
  ultimately show "firstPassMin (brightImage w h) = 200" and "firstPassMax (brightImage w h) = 200"
    by simp_all
qed


subsection \<open>The contrast decision and the two branches\<close>

text \<open>
  Claim C5. For an image less than 100 pixels wide or less than 100 pixels high the
  contrast decision is the full range, minimum 0 and maximum 255, whatever minimum and
  maximum were measured, and the result of preprocessing is the second pass run with that
  range on the gray image. So every pixel inside the bounds has been stretched with the
  full range, which leaves its luminance as it is, and thresholded: it is 255 if the
  luminance is above 128 and 0 otherwise. The early return is not taken: where the gray
  image has a luminance other than 0 and 255, the result differs from it.
\<close>

theorem small_image_full_range_stretch:
  assumes "Dx (Bounds img) < 100 \<or> Dy (Bounds img) < 100"
  shows "contrastDecision (Bounds img) mn mx = Some (0, 255) \<and>
         preprocessImage img = secondPass (Bounds img) (firstPassGray img) 0 255 \<and>
         Rect (preprocessImage img) = Bounds img \<and>
         (\<forall>x y. PointIn (x, y) (Bounds img) \<longrightarrow>
            normalized (grayVal (At img x y)) 0 255 = grayVal (At img x y) \<and>
            GrayAt (preprocessImage img) x y =
              (if normalized (grayVal (At img x y)) 0 255 > 128 then 255 else 0) \<and>
            GrayAt (preprocessImage img) x y = (if grayVal (At img x y) > 128 then 255 else 0) \<and>
            (grayVal (At img x y) \<noteq> 0 \<and> grayVal (At img x y) \<noteq> 255 \<longrightarrow>
               GrayAt (preprocessImage img) x y \<noteq> GrayAt (firstPassGray img) x y))"
proof -
  from assms have decision: "\<And>a b. contrastDecision (Bounds img) a b = Some (0, 255)"
    by (simp add: contrastDecision_def)
  then have pre: "preprocessImage img = secondPass (Bounds img) (firstPassGray img) 0 255"
    by (simp add: preprocessImage_decision)
  have pixel: "GrayAt (preprocessImage img) x y = (if grayVal (At img x y) > 128 then 255 else 0)"
    and gray: "GrayAt (firstPassGray img) x y = grayVal (At img x y)"
    if "PointIn (x, y) (Bounds img)" for x y
  proof -
    show g: "GrayAt (firstPassGray img) x y = grayVal (At img x y)"
      using that by (simp add: GrayAt_def firstPassGray_Rect firstPassGray_pixel)
    have "GrayAt (preprocessImage img) x y =
        threshold (normalized (GrayAt (firstPassGray img) x y) 0 255)"
      using that by (simp add: pre GrayAt_def secondPass_Rect secondPass_pixel)
    then show "GrayAt (preprocessImage img) x y = (if grayVal (At img x y) > 128 then 255 else 0)"
      by (simp add: g normalized_full_range threshold_def)
  qed
  have differs: "GrayAt (preprocessImage img) x y \<noteq> GrayAt (firstPassGray img) x y"
    if "PointIn (x, y) (Bounds img)" and "grayVal (At img x y) \<noteq> 0" and "grayVal (At img x y) \<noteq> 255"
    for x y
    using that pixel [OF that(1)] gray [OF that(1)] by (simp split: if_splits)
  from decision pre pixel differs show ?thesis
    by (simp add: secondPass_Rect normalized_full_range)
qed

theorem small_image_full_range_stretch_witness:
  "Dx (Bounds (brightImage 50 50)) < 100 \<and>
   firstPassMax (brightImage 50 50) - firstPassMin (brightImage 50 50) = 0 \<and>
   contrastDecision (Bounds (brightImage 50 50)) (firstPassMin (brightImage 50 50))
     (firstPassMax (brightImage 50 50)) = Some (0, 255) \<and>
   PointIn (3, 4) (Bounds (brightImage 50 50)) \<and>
   grayVal (At (brightImage 50 50) 3 4) = 200 \<and>
   GrayAt (firstPassGray (brightImage 50 50)) 3 4 = 200 \<and>
   GrayAt (preprocessImage (brightImage 50 50)) 3 4 = 255"
proof -
  let ?img = "brightImage 50 50"
  have small: "Dx (Bounds ?img) < 100" by (simp add: brightImage_def)
  then have h: "Dx (Bounds ?img) < 100 \<or> Dy (Bounds ?img) < 100" by simp
  have flat: "firstPassMax ?img - firstPassMin ?img = 0"
    by (simp add: brightImage_first_pass)
  have inside: "PointIn (3, 4) (Bounds ?img)"
    by (simp add: PointIn_def brightImage_def MaxX_def MaxY_def)
  have lum: "grayVal (At ?img 3 4) = 200"
    by (simp add: brightImage_def grayVal_bright)
  note facts = small_image_full_range_stretch [OF h, of "firstPassMin ?img" "firstPassMax ?img"]
  from facts have decision: "contrastDecision (Bounds ?img) (firstPassMin ?img) (firstPassMax ?img)
      = Some (0, 255)"
    by blast
  from facts inside
  have "GrayAt (preprocessImage ?img) 3 4 = (if grayVal (At ?img 3 4) > 128 then 255 else 0)"
    by blast
  with lum have out: "GrayAt (preprocessImage ?img) 3 4 = 255" by simp
  have "GrayAt (firstPassGray ?img) 3 4 = 200"
    using inside lum by (simp add: GrayAt_def firstPassGray_Rect firstPassGray_pixel)
  with small flat decision inside lum out show ?thesis by blast
qed

text \<open>
  Claim C6. For an image at least 100 pixels wide and high whose measured range
  \<open>max - min\<close> is below 30, preprocessing returns the gray image of the first pass
  itself: it has the bounds of the input, each pixel inside the bounds is the luminance
  value of the input pixel, and no pixel has been stretched or thresholded.
\<close>

theorem low_contrast_returns_gray:
  assumes "100 \<le> Dx (Bounds img)" and "100 \<le> Dy (Bounds img)"
    and "firstPassMax img - firstPassMin img < 30"
  shows "preprocessImage img = firstPassGray img \<and>
         Rect (preprocessImage img) = Bounds img \<and>
         (\<forall>x y. PointIn (x, y) (Bounds img) \<longrightarrow>
                GrayAt (preprocessImage img) x y = grayVal (At img x y))"
proof -
  from assms have "contrastDecision (Bounds img) (firstPassMin img) (firstPassMax img) = None"
    by (simp add: contrastDecision_def)
  then have "preprocessImage img = firstPassGray img"
    by (simp add: preprocessImage_decision)
  then show ?thesis
    by (simp add: firstPassGray_Rect firstPassGray_pixel GrayAt_def)
qed

theorem low_contrast_returns_gray_witness:
  "100 \<le> Dx (Bounds (blackImage 100 100)) \<and> 100 \<le> Dy (Bounds (blackImage 100 100)) \<and>
   firstPassMax (blackImage 100 100) - firstPassMin (blackImage 100 100) < 30 \<and>
   preprocessImage (blackImage 100 100) = firstPassGray (blackImage 100 100) \<and>
   GrayAt (preprocessImage (blackImage 100 100)) 5 7 = 0"
proof -
  have h1: "100 \<le> Dx (Bounds (blackImage 100 100))" and h2: "100 \<le> Dy (Bounds (blackImage 100 100))"
    by (simp_all add: blackImage_def)
  note h3 = blackImage_range [of 100 100]
  have inside: "PointIn (5, 7) (Bounds (blackImage 100 100))"
    by (simp add: PointIn_def blackImage_def MaxX_def MaxY_def)
  have lum: "grayVal (At (blackImage 100 100) 5 7) = 0"
    by (simp add: blackImage_def grayVal_black)
  from low_contrast_returns_gray [OF h1 h2 h3]
  have same: "preprocessImage (blackImage 100 100) = firstPassGray (blackImage 100 100)"
    and pixels: "\<forall>x y. PointIn (x, y) (Bounds (blackImage 100 100)) \<longrightarrow>
        GrayAt (preprocessImage (blackImage 100 100)) x y = grayVal (At (blackImage 100 100) x y)"
    by blast+
  from pixels inside lum have "GrayAt (preprocessImage (blackImage 100 100)) 5 7 = 0"
    by metis
  with h1 h2 h3 same show ?thesis by blast
qed

text \<open>
  Claim C7. Whenever the contrast decision is to stretch, every pixel of the image that
  preprocessing returns is 0 or 255, and the image has the bounds of the input.
\<close>

theorem stretch_output_black_white:
  assumes "contrastDecision (Bounds img) (firstPassMin img) (firstPassMax img) = Some chosen"
  shows "(\<forall>p. Pix (preprocessImage img) p = 0 \<or> Pix (preprocessImage img) p = 255) \<and>
         (\<forall>x y. GrayAt (preprocessImage img) x y = 0 \<or> GrayAt (preprocessImage img) x y = 255) \<and>
         Rect (preprocessImage img) = Bounds img"
proof -
  obtain mn mx where "chosen = (mn, mx)" by (cases chosen)
  with assms have "preprocessImage img = secondPass (Bounds img) (firstPassGray img) mn mx"
    by (simp add: preprocessImage_decision)
  then show ?thesis
    using secondPass_bw by (simp add: secondPass_Rect GrayAt_def)
qed

theorem stretch_output_black_white_witness:
  "contrastDecision (Bounds (blackImage 1 1)) (firstPassMin (blackImage 1 1)) (firstPassMax (blackImage 1 1))
     = Some (0, 255) \<and>
   (\<forall>p. Pix (preprocessImage (blackImage 1 1)) p = 0 \<or> Pix (preprocessImage (blackImage 1 1)) p = 255) \<and>
   Rect (preprocessImage (blackImage 1 1)) = \<lparr>MinX = 0, MinY = 0, Dx = 1, Dy = 1\<rparr>"
proof -
  have h: "contrastDecision (Bounds (blackImage 1 1)) (firstPassMin (blackImage 1 1))
      (firstPassMax (blackImage 1 1)) = Some (0, 255)"
    by (simp add: contrastDecision_def blackImage_def)
  have "Bounds (blackImage 1 1) = \<lparr>MinX = 0, MinY = 0, Dx = 1, Dy = 1\<rparr>"
    by (simp add: blackImage_def)
  with stretch_output_black_white [OF h] h show ?thesis by simp
qed

text \<open>
  Claim C10. Whenever the contrast decision is to stretch with \<open>min\<close> and \<open>max\<close>, the
  divisor \<open>max - min\<close> is not zero: it is 255 for a small image, and otherwise it is at
  least 30 and is the difference of the two numbers (the \<open>uint8\<close> subtraction has not
  wrapped). Every gray pixel the second pass reads is at least \<open>min\<close>, so
  \<open>original - min\<close> does not wrap either.
\<close>

theorem stretch_divisor_nonzero:
  assumes "contrastDecision (Bounds img) (firstPassMin img) (firstPassMax img) = Some (mn, mx)"
  shows "mx - mn \<noteq> 0 \<and> float64 (mx - mn) \<noteq> 0 \<and>
         (Dx (Bounds img) < 100 \<or> Dy (Bounds img) < 100 \<longrightarrow> mx - mn = 255) \<and>
         (100 \<le> Dx (Bounds img) \<and> 100 \<le> Dy (Bounds img) \<longrightarrow>
            30 \<le> mx - mn \<and> mn \<le> mx \<and> unat (mx - mn) = unat mx - unat mn) \<and>
         (\<forall>p \<in> set (pixelCoords (Bounds img)).
            mn \<le> GrayAt (firstPassGray img) (fst p) (snd p) \<and>
            unat (GrayAt (firstPassGray img) (fst p) (snd p) - mn) =
              unat (GrayAt (firstPassGray img) (fst p) (snd p)) - unat mn)"
proof (cases "Dx (Bounds img) < 100 \<or> Dy (Bounds img) < 100")
  case True
  with assms have "mn = 0" "mx = 255" by (simp_all add: contrastDecision_def)
  with True show ?thesis by (simp add: float64_def)
next
  case False
  with assms have range: "\<not> mx - mn < 30" and mn: "mn = firstPassMin img" and mx: "mx = firstPassMax img"
    by (simp_all add: contrastDecision_def split: if_splits)
  from False have "PointIn (MinX (Bounds img), MinY (Bounds img)) (Bounds img)"
    by (simp add: PointIn_def MaxX_def MaxY_def)
  then have "mn \<le> mx"
    using firstPass_min_le_pixel firstPass_pixel_le_max mn mx by (metis order_trans)
  have pix: "mn \<le> GrayAt (firstPassGray img) (fst p) (snd p)" if "p \<in> set (pixelCoords (Bounds img))" for p
    using that firstPass_min_le_pixel [of "fst p" "snd p" img]
      firstPassGray_pixel [of "fst p" "snd p" img]
    by (simp add: pixelCoords_set GrayAt_def firstPassGray_Rect mn)
  from range have "mx - mn \<noteq> 0" by auto
  then have "float64 (mx - mn) \<noteq> 0"
    unfolding float64_def by (simp only: of_nat_eq_0_iff unat_eq_0 not_False_eq_True)
  with False range \<open>mn \<le> mx\<close> \<open>mx - mn \<noteq> 0\<close> pix show ?thesis
    by (auto simp: unat_sub not_less)
qed

theorem stretch_divisor_nonzero_witness:
  "contrastDecision (Bounds threeLevelImage) (firstPassMin threeLevelImage) (firstPassMax threeLevelImage)
     = Some (0, 200) \<and>
   (200 :: 8 word) - 0 \<noteq> 0 \<and> 30 \<le> (200 :: 8 word) - 0 \<and>
   (0 :: 8 word) \<le> GrayAt (firstPassGray threeLevelImage) 2 0"
proof -
  note facts = stretch_divisor_nonzero [OF threeLevel_decision]
  have large: "100 \<le> Dx (Bounds threeLevelImage) \<and> 100 \<le> Dy (Bounds threeLevelImage)"
    by (simp add: threeLevelImage_def)
  have "(2 :: int, 0 :: int) \<in> set (pixelCoords (Bounds threeLevelImage))"
    using threeLevel_inside(3) by (simp add: pixelCoords_set)
  with facts
  have "(0 :: 8 word) \<le> GrayAt (firstPassGray threeLevelImage) (fst (2 :: int, 0 :: int)) (snd (2 :: int, 0 :: int))"
    by blast
  moreover from facts large have "(200 :: 8 word) - 0 \<noteq> 0" "30 \<le> (200 :: 8 word) - 0"
    by blast+
  ultimately show ?thesis using threeLevel_decision by simp
qed

subsection \<open>The stretching formula\<close>

text \<open>
  Claim C3 fails as stated. In the 100 by 100 image \<open>threeLevelImage\<close> the stretch runs
  with minimum 0 and maximum 200, and the pixel at (2, 0) has luminance 101: the value
  before binarization is 128, where the rounded quotient
  \<open>round(101 / 200 * 255) = round(128.775)\<close> is 129, and the pixel comes out black where
  129 would have made it white.
\<close>

theorem stretch_rounds_counterexample:
  "contrastDecision (Bounds threeLevelImage) (firstPassMin threeLevelImage) (firstPassMax threeLevelImage)
     = Some (0, 200) \<and>
   PointIn (2, 0) (Bounds threeLevelImage) \<and>
   grayVal (At threeLevelImage 2 0) = 101 \<and>
   uint (normalized 101 0 200) = 128 \<and>
   spec_normalized 101 0 200 = 129 \<and>
   GrayAt (preprocessImage threeLevelImage) 2 0 = 0"
  by (simp add: threeLevel_decision threeLevel_inside threeLevel_values normalized_101_0_200
      spec_normalized_101_0_200 threeLevel_pixel)

text \<open>
  Claim C3, amended. In the stretching pass the pixel read at a coordinate is the luminance
  of the input pixel, and it lies between the chosen \<open>min\<close> and \<open>max\<close>. The value before
  binarization is the \<open>float64\<close> value \<open>(original - min) / (max - min) * 255\<close> with its
  fraction discarded, not rounded to the nearest integer, and this is exactly the integer
  quotient of \<open>(original - min) * 255\<close> by \<open>max - min\<close>. The output pixel is 255 if that
  value is greater than 128 and 0 otherwise.
\<close>

theorem stretch_pixel_truncates:
  assumes decision: "contrastDecision (Bounds img) (firstPassMin img) (firstPassMax img) = Some (mn, mx)"
    and inside: "PointIn (x, y) (Bounds img)"
  shows "GrayAt (firstPassGray img) x y = grayVal (At img x y) \<and>
         mn \<le> grayVal (At img x y) \<and> grayVal (At img x y) \<le> mx \<and> mn < mx \<and>
         uint (normalized (grayVal (At img x y)) mn mx) =
           \<lfloor>fmul (fdiv (float64 (grayVal (At img x y) - mn)) (float64 (mx - mn))) 255\<rfloor> \<and>
         unat (normalized (grayVal (At img x y)) mn mx) =
           (unat (grayVal (At img x y)) - unat mn) * 255 div (unat mx - unat mn) \<and>
         GrayAt (preprocessImage img) x y =
           (if normalized (grayVal (At img x y)) mn mx > 128 then 255 else 0)"
proof -
  let ?o = "grayVal (At img x y)"
  let ?v = "fmul (fdiv (float64 (?o - mn)) (float64 (mx - mn))) 255"
  have gray: "GrayAt (firstPassGray img) x y = ?o"
    using inside by (simp add: GrayAt_def firstPassGray_Rect firstPassGray_pixel)
  have ord: "mn \<le> ?o \<and> ?o \<le> mx \<and> mn < mx"
  proof (cases "Dx (Bounds img) < 100 \<or> Dy (Bounds img) < 100")
    case True
    with decision have "mn = 0" "mx = 255" by (simp_all add: contrastDecision_def)
    moreover have "unat ?o < 2 ^ LENGTH(8)" by (rule unsigned_less)
    then have "?o \<le> 255" by (simp add: word_le_nat_alt)
    ultimately show ?thesis by simp
  next
    case False
    with decision have range: "\<not> mx - mn < 30" and mn: "mn = firstPassMin img" and mx: "mx = firstPassMax img"
      by (simp_all add: contrastDecision_def split: if_splits)
    have "mn \<le> ?o" "?o \<le> mx"
      using inside firstPass_min_le_pixel firstPass_pixel_le_max by (simp_all add: mn mx)
    moreover from range have "mx \<noteq> mn" by auto
    ultimately show ?thesis by auto
  qed
  then have "mn \<le> ?o" "mn \<le> mx" by (simp_all add: less_imp_le)
  then have sub: "unat (?o - mn) = unat ?o - unat mn" "unat (mx - mn) = unat mx - unat mn"
    by (simp_all add: unat_sub)
  from ord have le: "unat (?o - mn) \<le> unat (mx - mn)"
    unfolding sub by (simp add: word_le_nat_alt diff_le_mono)
  from ord have nz: "mx - mn \<noteq> 0" by auto
  from stretch_value_range [OF le nz] have v: "0 \<le> ?v" "?v \<le> 255" by blast+
  then have "0 \<le> \<lfloor>?v\<rfloor>" "\<lfloor>?v\<rfloor> < 256" by (simp_all add: floor_less_iff)
  then have trunc: "uint (normalized ?o mn mx) = \<lfloor>?v\<rfloor>"
    using v(1) by (simp add: normalized_def uint8_def uint_word_of_int)
  from stretch_floor_word [OF le nz] trunc
  have "uint (normalized ?o mn mx) = int ((unat ?o - unat mn) * 255 div (unat mx - unat mn))"
    by (simp only: sub)
  then have quot: "unat (normalized ?o mn mx) = (unat ?o - unat mn) * 255 div (unat mx - unat mn)"
    by (simp only: uint_nat of_nat_eq_iff)
  have "preprocessImage img = secondPass (Bounds img) (firstPassGray img) mn mx"
    using decision by (simp add: preprocessImage_decision)
  then have "GrayAt (preprocessImage img) x y = threshold (normalized ?o mn mx)"
    using inside gray by (simp add: GrayAt_def secondPass_Rect secondPass_pixel)
  with gray ord trunc quot show ?thesis by (simp add: threshold_def)
qed

theorem stretch_pixel_truncates_witness:
  "contrastDecision (Bounds threeLevelImage) (firstPassMin threeLevelImage) (firstPassMax threeLevelImage)
     = Some (0, 200) \<and>
   PointIn (2, 0) (Bounds threeLevelImage) \<and>
   unat (normalized (grayVal (At threeLevelImage 2 0)) 0 200) =
     (unat (grayVal (At threeLevelImage 2 0)) - unat (0 :: 8 word)) * 255 div (unat (200 :: 8 word) - unat (0 :: 8 word)) \<and>
   GrayAt (preprocessImage threeLevelImage) 2 0 =
     (if normalized (grayVal (At threeLevelImage 2 0)) 0 200 > 128 then 255 else 0)"
  using stretch_pixel_truncates [OF threeLevel_decision threeLevel_inside(3)]
    threeLevel_decision threeLevel_inside(3)
  by blast

subsection \<open>The decoder cascade\<close>

lemma tryReaders_find:
  "tryReaders decode bmp rs lastErr tried =
     (case find (\<lambda>r. \<not> isl (decode r bmp)) rs of
        Some r \<Rightarrow> (Inr (projr (decode r bmp)), tried @ takeWhile (\<lambda>r. isl (decode r bmp)) rs @ [r])
      | None \<Rightarrow>
          (Inl (''no barcode found with any reader, last error: ''
                 @ (case (if rs = [] then lastErr else Some (projl (decode (last rs) bmp))) of
                      None \<Rightarrow> ''<nil>'' | Some e \<Rightarrow> e)),
           tried @ rs))"
proof (induction rs arbitrary: lastErr tried)
  case Nil
  show ?case by simp
next
  case (Cons r rs)
  show ?case
  proof (cases "decode r bmp")
    case (Inl err)
    then have step: "tryReaders decode bmp (r # rs) lastErr tried =
        tryReaders decode bmp rs (Some err) (tried @ [r])"
      by simp
    show ?thesis
      unfolding step Cons.IH
      using Inl by (cases "find (\<lambda>r. \<not> isl (decode r bmp)) rs") auto
  next
    case (Inr decoded)
    then show ?thesis by simp
  qed
qed

lemma find_first_index:
  "i < length rs \<Longrightarrow> \<forall>j<i. \<not> P (rs ! j) \<Longrightarrow> P (rs ! i) \<Longrightarrow>
     find P rs = Some (rs ! i) \<and> takeWhile (\<lambda>r. \<not> P r) rs = take i rs"
proof (induction rs arbitrary: i)
  case Nil
  then show ?case by simp
next
  case (Cons r rs)
  show ?case
  proof (cases i)
    case 0
    with Cons.prems show ?thesis by simp
  next
    case (Suc k)
    with Cons.prems have "\<not> P r" by auto
    moreover from Suc Cons.prems have "k < length rs" "\<forall>j<k. \<not> P (rs ! j)" "P (rs ! k)" by auto
    ultimately show ?thesis using Cons.IH [of k] Suc by simp
  qed
qed

text \<open>
  Claim C4. The readers are tried in the order UPC/EAN, Code128, Code39, Code93, ITF,
  CodaBar. When the readers before position \<open>i\<close> fail and the reader at \<open>i\<close>
  succeeds, the result is its text and the readers tried are exactly the first
  \<open>i + 1\<close>: the failures before it did not stop the cascade, and no reader after it
  is tried. When every reader fails, all six have been tried and the result is an error.
\<close>

theorem cascade_fixed_order_first_success:
  assumes bmp: "NewBinaryBitmapFromImage w (preprocessImage img) = None"
  shows "readers = [UPC_EAN, Code128, Code39, Code93, ITF, CodaBar] \<and>
    (\<forall>i t. i < length readers \<and>
            (\<forall>j<i. isl (Decode w (readers ! j) (preprocessImage img))) \<and>
            Decode w (readers ! i) (preprocessImage img) = Inr t
        \<longrightarrow> extractBarcodeFromImage w img = (Inr t, take (Suc i) readers)) \<and>
    ((\<forall>r \<in> set readers. isl (Decode w r (preprocessImage img)))
        \<longrightarrow> isl (fst (extractBarcodeFromImage w img)) \<and> snd (extractBarcodeFromImage w img) = readers)"
proof (intro conjI allI impI)
  show "readers = [UPC_EAN, Code128, Code39, Code93, ITF, CodaBar]" by (simp add: readers_def)
next
  fix i t
  let ?P = "\<lambda>r. \<not> isl (Decode w r (preprocessImage img))"
  assume a: "i < length readers \<and>
            (\<forall>j<i. isl (Decode w (readers ! j) (preprocessImage img))) \<and>
            Decode w (readers ! i) (preprocessImage img) = Inr t"
  then have "find ?P readers = Some (readers ! i) \<and> takeWhile (\<lambda>r. \<not> ?P r) readers = take i readers"
    by (intro find_first_index) auto
  moreover have "take i readers @ [readers ! i] = take (Suc i) readers"
    using a by (simp add: take_Suc_conv_app_nth)
  ultimately show "extractBarcodeFromImage w img = (Inr t, take (Suc i) readers)"
    using a bmp by (simp add: extractBarcodeFromImage_def tryReaders_find)
next
  assume "\<forall>r \<in> set readers. isl (Decode w r (preprocessImage img))"
  then have "find (\<lambda>r. \<not> isl (Decode w r (preprocessImage img))) readers = None"
    by (simp add: find_None_iff)
  then show "isl (fst (extractBarcodeFromImage w img))" "snd (extractBarcodeFromImage w img) = readers"
    using bmp by (simp_all add: extractBarcodeFromImage_def tryReaders_find)
qed

theorem cascade_fixed_order_first_success_witness:
  "NewBinaryBitmapFromImage (exampleWorld ''1'' ''%PDF-1.4'') (preprocessImage (blackImage 1 1)) = None \<and>
   (1::nat) < length readers \<and>
   isl (Decode (exampleWorld ''1'' ''%PDF-1.4'') (readers ! 0) (preprocessImage (blackImage 1 1))) \<and>
   Decode (exampleWorld ''1'' ''%PDF-1.4'') (readers ! 1) (preprocessImage (blackImage 1 1)) = Inr ''ABC123'' \<and>
   extractBarcodeFromImage (exampleWorld ''1'' ''%PDF-1.4'') (blackImage 1 1) = (Inr ''ABC123'', [UPC_EAN, Code128])"
proof -
  let ?w = "exampleWorld ''1'' ''%PDF-1.4''"
  let ?b = "preprocessImage (blackImage 1 1)"
  have h0: "NewBinaryBitmapFromImage ?w ?b = None" by (simp add: exampleWorld_def)
  have h1: "(1::nat) < length readers" by (simp add: readers_def)
  have h2: "\<forall>j<1. isl (Decode ?w (readers ! j) ?b)" by (simp add: readers_def exampleWorld_def)
  have h3: "Decode ?w (readers ! 1) ?b = Inr ''ABC123''" by (simp add: readers_def exampleWorld_def)
  from cascade_fixed_order_first_success [OF h0] h1 h2 h3
  have "extractBarcodeFromImage ?w (blackImage 1 1) = (Inr ''ABC123'', take (Suc 1) readers)" by blast
  then have "extractBarcodeFromImage ?w (blackImage 1 1) = (Inr ''ABC123'', [UPC_EAN, Code128])"
    by (simp add: readers_def)
  moreover from h2 have "isl (Decode ?w (readers ! 0) ?b)" by simp
  ultimately show ?thesis using h0 h1 h3 by blast
qed

subsection \<open>The page selector\<close>

lemma select_fold_filter:
  "fold (\<lambda>file sortedFiles. if P file then sortedFiles @ [Name file] else sortedFiles) files acc =
     acc @ map Name (filter P files)"
  by (induction files arbitrary: acc) simp_all

lemma selectFiles_sort_filter:
  "selectFiles files pageLimit = sort (map Name (filter (keepFile pageLimit) files))"
  by (simp add: selectFiles_def sortStrings_def select_fold_filter)

text \<open>
  Claim C8. The page selector keeps exactly the names of the entries that are not
  directories, do not have the extension \<open>.pdf\<close>, whose second part between
  underscores parses as an integer, and whose page number is at most the page limit; it
  returns them in ascending lexicographic order, one per kept entry. For the files
  \<open>page_1_a.png\<close>, \<open>page_2_a.png\<close>, \<open>page_10_a.png\<close>, \<open>input.pdf\<close> and the
  limit 2 the result is \<open>page_1_a.png\<close>, \<open>page_2_a.png\<close>; the order is not numeric,
  \<open>page_10_a.png\<close> comes before \<open>page_2_a.png\<close>.
\<close>

theorem page_selector_filters_and_sorts:
  "set (selectFiles files pageLimit) =
     {Name f | f. f \<in> set files \<and> \<not> IsDir f \<and> Ext (Name f) \<noteq> ''.pdf'' \<and>
        (\<exists>n. 2 \<le> length (Split (Name f) (CHR ''_'')) \<and>
             Atoi (Split (Name f) (CHR ''_'') ! 1) = Some n \<and> n \<le> pageLimit)} \<and>
   sorted (selectFiles files pageLimit) \<and>
   length (selectFiles files pageLimit) = length (filter (keepFile pageLimit) files) \<and>
   (distinct (map Name files) \<longrightarrow> distinct (selectFiles files pageLimit)) \<and>
   selectFiles [\<lparr>Name = ''page_1_a.png'', IsDir = False\<rparr>, \<lparr>Name = ''page_2_a.png'', IsDir = False\<rparr>,
                \<lparr>Name = ''page_10_a.png'', IsDir = False\<rparr>, \<lparr>Name = ''input.pdf'', IsDir = False\<rparr>] 2
     = [''page_1_a.png'', ''page_2_a.png''] \<and>
   selectFiles [\<lparr>Name = ''page_2_a.png'', IsDir = False\<rparr>, \<lparr>Name = ''page_10_a.png'', IsDir = False\<rparr>] 10
     = [''page_10_a.png'', ''page_2_a.png'']"
proof (intro conjI)
  show "set (selectFiles files pageLimit) =
     {Name f | f. f \<in> set files \<and> \<not> IsDir f \<and> Ext (Name f) \<noteq> ''.pdf'' \<and>
        (\<exists>n. 2 \<le> length (Split (Name f) (CHR ''_'')) \<and>
             Atoi (Split (Name f) (CHR ''_'') ! 1) = Some n \<and> n \<le> pageLimit)}"
    by (auto simp: selectFiles_sort_filter keepFile_def Let_def split: option.splits)
  show "sorted (selectFiles files pageLimit)"
    by (simp add: selectFiles_sort_filter)
  show "length (selectFiles files pageLimit) = length (filter (keepFile pageLimit) files)"
    by (simp add: selectFiles_sort_filter)
  show "distinct (map Name files) \<longrightarrow> distinct (selectFiles files pageLimit)"
    by (simp add: selectFiles_sort_filter distinct_map_filter)
  show "selectFiles [\<lparr>Name = ''page_1_a.png'', IsDir = False\<rparr>, \<lparr>Name = ''page_2_a.png'', IsDir = False\<rparr>,
                \<lparr>Name = ''page_10_a.png'', IsDir = False\<rparr>, \<lparr>Name = ''input.pdf'', IsDir = False\<rparr>] 2
     = [''page_1_a.png'', ''page_2_a.png'']"
    by code_simp
  show "selectFiles [\<lparr>Name = ''page_2_a.png'', IsDir = False\<rparr>, \<lparr>Name = ''page_10_a.png'', IsDir = False\<rparr>] 10
     = [''page_10_a.png'', ''page_2_a.png'']"
    by code_simp
qed

theorem page_selector_filters_and_sorts_witness:
  "distinct (map Name [\<lparr>Name = ''page_1_a.png'', IsDir = False\<rparr>, \<lparr>Name = ''input.pdf'', IsDir = False\<rparr>]) \<and>
   distinct (selectFiles [\<lparr>Name = ''page_1_a.png'', IsDir = False\<rparr>, \<lparr>Name = ''input.pdf'', IsDir = False\<rparr>] 1)"
  using page_selector_filters_and_sorts
    [of "[\<lparr>Name = ''page_1_a.png'', IsDir = False\<rparr>, \<lparr>Name = ''input.pdf'', IsDir = False\<rparr>]" 1]
  by simp

subsection \<open>HandleRequest\<close>

lemma pageLimitUsed_cases:
  "pageLimitUsed w =
     (if Getenv w ''PDF_PAGE_LIMIT'' = [] then 1
      else (case Atoi (Getenv w ''PDF_PAGE_LIMIT'') of None \<Rightarrow> 1 | Some n \<Rightarrow> n))"
  by (simp add: pageLimitUsed_def Let_def Atoi_def isDigit_def)

lemma pageLimitUsed_unparsable:
  "Atoi (Getenv w ''PDF_PAGE_LIMIT'') = None \<Longrightarrow> pageLimitUsed w = 1"
  by (simp add: pageLimitUsed_cases)

lemma pageLimitDefault_positive: "0 < pageLimitDefault w"
  by (simp add: pageLimitDefault_def Let_def split: option.splits)

lemma example_calls:
  "OpenFile (exampleWorld l b) path = None"
  "ImageDecode (exampleWorld l b) path = Inr (blackImage 1 1)"
  "MkdirTemp (exampleWorld l b) = Inr ''/tmp/pdf-images-1''"
  "WriteFile (exampleWorld l b) path bytes = None"
  "MkdirAll (exampleWorld l b) path = None"
  "ExtractImagesFile (exampleWorld l b) pdf dir = None"
  "ReadDir (exampleWorld l b) dir =
     Inr [\<lparr>Name = ''input.pdf'', IsDir = False\<rparr>, \<lparr>Name = ''page_1_a.png'', IsDir = False\<rparr>,
          \<lparr>Name = ''pages'', IsDir = True\<rparr>]"
  by (simp_all add: exampleWorld_def)

lemma example_select_1:
  "selectFiles [\<lparr>Name = ''input.pdf'', IsDir = False\<rparr>, \<lparr>Name = ''page_1_a.png'', IsDir = False\<rparr>,
                \<lparr>Name = ''pages'', IsDir = True\<rparr>] 1 = [''page_1_a.png'']"
  by code_simp

lemma example_select_0:
  "selectFiles [\<lparr>Name = ''input.pdf'', IsDir = False\<rparr>, \<lparr>Name = ''page_1_a.png'', IsDir = False\<rparr>,
                \<lparr>Name = ''pages'', IsDir = True\<rparr>] 0 = []"
  by code_simp

lemma example_limit_0: "pageLimitUsed (exampleWorld ''0'' b) = 0"
  by (simp add: pageLimitUsed_def exampleWorld_def Atoi_def isDigit_def)

lemma example_limit_1: "pageLimitUsed (exampleWorld ''1'' b) = 1"
  by (simp add: pageLimitUsed_def exampleWorld_def Atoi_def isDigit_def)

lemma example_fetch:
  "fetchPDF (exampleWorld l b) records = Inr (b, ''test-bucket'', ''doc.pdf'')"
  by (simp add: fetchPDF_def exampleWorld_def)

lemma example_extract:
  "extractBarcodeFromImage (exampleWorld l b) img = (Inr ''ABC123'', [UPC_EAN, Code128])"
  by (simp add: extractBarcodeFromImage_def exampleWorld_def readers_def)

lemma example_post:
  "callRubyEndpoint (exampleWorld l b) d = (None, [Post ''http://api'' d])"
  by (simp add: callRubyEndpoint_def exampleWorld_def)

lemma example_scan:
  "scanFile (exampleWorld l b) dir key name (found, evs) =
     (found @ [''ABC123''],
      evs @ [Scan name [UPC_EAN, Code128], Post ''http://api'' \<lparr>S3Key = key, BarcodeArray = [''ABC123'']\<rparr>])"
  by (simp add: scanFile_def example_extract example_post example_calls)

text \<open>
  Claim C1, at the page limit \<open>0\<close>. The first computation yields 1, but the limit the
  selection uses is 0: the image of page 1 is not selected, nothing is scanned, and the
  response carries no barcode.
\<close>

theorem page_limit_zero_is_used:
  "pageLimitDefault (exampleWorld ''0'' ''%PDF-1.4'') = 1 \<and>
   pageLimitUsed (exampleWorld ''0'' ''%PDF-1.4'') = 0 \<and>
   HandleRequest (exampleWorld ''0'' ''%PDF-1.4'') [] =
     (Return \<lparr>StatusCode = 200,
              Body = Json \<lparr>Bucket = ''test-bucket'', Key = ''doc.pdf'', Barcodes = []\<rparr>\<rparr> None,
      [Extract ''/tmp/pdf-images-1/input.pdf'' ''/tmp/pdf-images-1''])"
proof (intro conjI)
  show "pageLimitDefault (exampleWorld ''0'' ''%PDF-1.4'') = 1"
    by (simp add: pageLimitDefault_def exampleWorld_def Atoi_def isDigit_def)
  show "pageLimitUsed (exampleWorld ''0'' ''%PDF-1.4'') = 0"
    by (rule example_limit_0)
  have "extractAndScan (exampleWorld ''0'' ''%PDF-1.4'') ''%PDF-1.4'' ''test-bucket'' ''doc.pdf'' =
     (Return \<lparr>StatusCode = 200,
              Body = Json \<lparr>Bucket = ''test-bucket'', Key = ''doc.pdf'', Barcodes = []\<rparr>\<rparr> None,
      [Extract ''/tmp/pdf-images-1/input.pdf'' ''/tmp/pdf-images-1''])"
    by (simp add: extractAndScan_def scanAndRespond_def example_limit_0 Join_def example_calls
          example_select_0)
  then show "HandleRequest (exampleWorld ''0'' ''%PDF-1.4'') [] =
     (Return \<lparr>StatusCode = 200,
              Body = Json \<lparr>Bucket = ''test-bucket'', Key = ''doc.pdf'', Barcodes = []\<rparr>\<rparr> None,
      [Extract ''/tmp/pdf-images-1/input.pdf'' ''/tmp/pdf-images-1''])"
    by (simp add: HandleRequest_def example_fetch)
qed

lemma callRubyEndpoint_events:
  "e \<in> set (snd (callRubyEndpoint w d)) \<Longrightarrow> \<exists>u. e = Post u d"
  by (auto simp: callRubyEndpoint_def Let_def split: option.splits sum.splits if_splits)

lemma scanFile_events:
  assumes "e \<in> set (snd (scanFile w dir key name st))"
  shows "e \<in> set (snd st) \<or> (\<exists>tried. e = Scan name tried) \<or>
         (\<exists>u barcode. e = Post u \<lparr>S3Key = key, BarcodeArray = [barcode]\<rparr>)"
proof -
  obtain found evs where st: "st = (found, evs)" by (cases st)
  show ?thesis
    using assms callRubyEndpoint_events
    unfolding st scanFile_def Let_def
    by (fastforce split: option.splits sum.splits prod.splits if_splits)
qed

lemma fold_scanFile_posts:
  assumes "Post u d \<in> set (snd (fold (scanFile w dir key) names st))"
  shows "Post u d \<in> set (snd st) \<or> length (BarcodeArray d) = 1"
  using assms
proof (induction names arbitrary: st)
  case Nil
  then show ?case by simp
next
  case (Cons name names)
  from Cons.IH [of "scanFile w dir key name st"] Cons.prems
  have "Post u d \<in> set (snd (scanFile w dir key name st)) \<or> length (BarcodeArray d) = 1"
    by simp
  then show ?case
    using scanFile_events [of "Post u d" w dir key name st] by auto
qed

text \<open>
  In every run, a POST carries exactly one barcode: the batch of a run that found none,
  or more than one, is never sent.
\<close>

lemma posts_carry_one_barcode:
  assumes "Post u d \<in> set (snd (HandleRequest w records))"
  shows "length (BarcodeArray d) = 1"
proof -
  have scan: "length (BarcodeArray d) = 1"
    if "Post u d \<in> set (snd (scanAndRespond w dir bucket key limit files [Extract a b]))"
    for dir bucket key limit files a b
  proof -
    from that have "Post u d \<in> set (snd (fold (scanFile w dir key) (selectFiles files limit) ([], [Extract a b])))"
      by (simp add: scanAndRespond_def Let_def split: prod.splits if_splits)
    from fold_scanFile_posts [OF this] show ?thesis by simp
  qed
  have whole: "length (BarcodeArray d) = 1"
    if "Post u d \<in> set (snd (extractAndScan w bytes bucket key))" for bytes bucket key
    using that scan
    by (auto simp: extractAndScan_def Let_def split: sum.splits option.splits)
  from assms whole show ?thesis
    by (auto simp: HandleRequest_def Let_def split: sum.splits prod.splits if_splits)
qed

text \<open>
  Claim C2, in a run that finds one barcode on one page. The run ends with status 200
  after the extraction, one scan and one POST, the notification of that page: no POST
  with the batch follows the scan loop.
\<close>

theorem only_per_page_notification_sent:
  "HandleRequest (exampleWorld ''1'' ''%PDF-1.4'') [] =
     (Return \<lparr>StatusCode = 200,
              Body = Json \<lparr>Bucket = ''test-bucket'', Key = ''doc.pdf'', Barcodes = [''ABC123'']\<rparr>\<rparr> None,
      [Extract ''/tmp/pdf-images-1/input.pdf'' ''/tmp/pdf-images-1'',
       Scan ''page_1_a.png'' [UPC_EAN, Code128],
       Post ''http://api'' \<lparr>S3Key = ''doc.pdf'', BarcodeArray = [''ABC123'']\<rparr>])"
proof -
  have "extractAndScan (exampleWorld ''1'' ''%PDF-1.4'') ''%PDF-1.4'' ''test-bucket'' ''doc.pdf'' =
     (Return \<lparr>StatusCode = 200,
              Body = Json \<lparr>Bucket = ''test-bucket'', Key = ''doc.pdf'', Barcodes = [''ABC123'']\<rparr>\<rparr> None,
      [Extract ''/tmp/pdf-images-1/input.pdf'' ''/tmp/pdf-images-1'',
       Scan ''page_1_a.png'' [UPC_EAN, Code128],
       Post ''http://api'' \<lparr>S3Key = ''doc.pdf'', BarcodeArray = [''ABC123'']\<rparr>])"
    by (simp add: extractAndScan_def scanAndRespond_def example_limit_1 Join_def example_calls
          example_select_1 example_scan)
  then show ?thesis
    by (simp add: HandleRequest_def example_fetch)
qed

text \<open>
  Claim C9. When the document has been fetched and its bytes are empty or do not begin
  with \<open>%PDF\<close>, \<open>HandleRequest\<close> returns status 400 with an error that says which of
  the two it is, and no extraction, scan or notification has taken place.
\<close>

theorem invalid_document_rejected:
  assumes fetched: "fetchPDF w records = Inr (pdfBytes, bucket, key)"
    and invalid: "pdfBytes = [] \<or> \<not> (\<exists>rest. pdfBytes = ''%PDF'' @ rest)"
  shows "HandleRequest w records =
     (Return \<lparr>StatusCode = 400,
              Body = Text (if pdfBytes = [] then ''Empty PDF file'' else ''Invalid PDF format'')\<rparr>
        (Some (if pdfBytes = [] then ''empty PDF file'' else ''invalid PDF format'')),
      [])"
proof (cases "pdfBytes = []")
  case True
  with fetched show ?thesis by (simp add: HandleRequest_def respond_def)
next
  case False
  with invalid have no: "\<not> (\<exists>rest. pdfBytes = ''%PDF'' @ rest)" by simp
  have "take 4 pdfBytes \<noteq> ''%PDF''"
  proof
    assume "take 4 pdfBytes = ''%PDF''"
    then have "pdfBytes = ''%PDF'' @ drop 4 pdfBytes"
      by (metis append_take_drop_id)
    with no show False by blast
  qed
  with fetched False show ?thesis by (simp add: HandleRequest_def respond_def)
qed

theorem invalid_document_rejected_witness:
  "fetchPDF (exampleWorld ''1'' ''hello'') [] = Inr (''hello'', ''test-bucket'', ''doc.pdf'') \<and>
   \<not> (\<exists>rest. ''hello'' = ''%PDF'' @ rest) \<and>
   HandleRequest (exampleWorld ''1'' ''hello'') [] =
     (Return \<lparr>StatusCode = 400, Body = Text ''Invalid PDF format''\<rparr> (Some ''invalid PDF format''), [])"
proof -
  have h1: "fetchPDF (exampleWorld ''1'' ''hello'') [] = Inr (''hello'', ''test-bucket'', ''doc.pdf'')"
    by (rule example_fetch)
  have h2: "\<not> (\<exists>rest. ''hello'' = ''%PDF'' @ rest)" by simp
  from invalid_document_rejected [OF h1] h2 h1 show ?thesis by simp
qed

end
